theory Spec2Isabelle
  imports Complex_Main "HOL-Library.Log_Nat"
begin

section \<open>Python arithmetic used by the launcher\<close>

text \<open>
  The launcher (\<^verbatim>\<open>emulator.py\<close>) computes angles with Python floats and indices with
  Python integers. Integers are modelled as \<^typ>\<open>int\<close>. A float is modelled as the
  \<^typ>\<open>real\<close> it denotes, and its arithmetic twice. In the exact model every operation
  returns the exact result. In the rounded model, whose functions carry the suffix
  \<open>_rounded\<close>, every operation returns the exact result rounded to the nearest IEEE double,
  ties to even, as a Python float operation does. Overflow, infinities and NaN are outside
  both models.
\<close>

datatype py_error = ZeroDivisionError | IndexError

text \<open>
  Python's \<^verbatim>\<open>x % m\<close> on floats, in the exact model: the remainder with the sign of the
  divisor.
\<close>

definition float_mod :: "real \<Rightarrow> real \<Rightarrow> real" where
  "float_mod x m = x - m * of_int \<lfloor>x / m\<rfloor>"

text \<open>Python's \<^verbatim>\<open>a % b\<close> on integers raises when the divisor is zero.\<close>

definition int_mod :: "int \<Rightarrow> int \<Rightarrow> py_error + int" where
  "int_mod a b = (if b = 0 then Inl ZeroDivisionError else Inr (a mod b))"

text \<open>\<^verbatim>\<open>math.radians\<close>.\<close>

definition radians :: "real \<Rightarrow> real" where
  "radians d = d * pi / 180"

subsection \<open>Rounding to a double\<close>

text \<open>
  \<open>exponent x\<close> is the \<open>e\<close> with \<open>2^e \<le> \<bar>x\<bar> < 2^(e+1)\<close>, computed from the bit length of an
  integer. The doubles with that exponent are the multiples of \<open>ulp e\<close>, which is \<open>2^(e-52)\<close>;
  below \<open>2^(-1022)\<close> the spacing stays that of exponent \<open>-1022\<close>. \<open>rnd x\<close> is the double nearest
  to \<open>x\<close>, the one with the even multiple when two are equally near.
\<close>

definition exponent :: "real \<Rightarrow> int" where
  "exponent x =
     (let a = \<bar>x\<bar> in if 1 \<le> a then bitlen \<lfloor>a\<rfloor> - 1 else - bitlen (\<lceil>1 / a\<rceil> - 1))"

definition round_half_even :: "real \<Rightarrow> int" where
  "round_half_even q =
     (let f = \<lfloor>q\<rfloor>; d = q - of_int f
      in if d < 1 / 2 then f else if 1 / 2 < d then f + 1 else if even f then f else f + 1)"

definition ulp :: "int \<Rightarrow> real" where
  "ulp e = (if 52 \<le> e then 2 ^ nat (e - 52) else 1 / 2 ^ nat (52 - e))"

definition rnd :: "real \<Rightarrow> real" where
  "rnd x =
     (if x = 0 then 0
      else let u = ulp (max (exponent x) (- 1022))
           in of_int (round_half_even (x / u)) * u)"


text \<open>
  Python's \<^verbatim>\<open>x % m\<close> on floats, in the rounded model, as CPython computes it: the C
  \<^verbatim>\<open>fmod\<close> is exact and has the sign of \<open>x\<close>; when it is not zero and its sign is not the sign
  of \<open>m\<close>, \<open>m\<close> is added to it, and that addition rounds.
\<close>

definition float_mod_rounded :: "real \<Rightarrow> real \<Rightarrow> real" where
  "float_mod_rounded x m =
     (let q = x / m;
          r = x - m * of_int (if 0 \<le> q then \<lfloor>q\<rfloor> else \<lceil>q\<rceil>)
      in if r \<noteq> 0 \<and> (m < 0) \<noteq> (r < 0) then rnd (r + m) else r)"

section \<open>The wheel\<close>

text \<open>
  \<^verbatim>\<open>WheelUI\<close>: the fields its methods and the key handling read or write.
  \<^verbatim>\<open>WheelItem\<close>: the index and the angle given at construction
  (\<^verbatim>\<open>angle\<close> and \<^verbatim>\<open>base_angle\<close> are the same value and never change).
\<close>

record WheelUI =
  master_index :: int
  target_index :: int
  master_angle :: real
  target_angle :: real
  bottom_angle :: real
  num_items :: int
  angle_increment :: real

record WheelItem =
  index :: int
  angle :: real

text \<open>
  \<^verbatim>\<open>WheelUI.__init__\<close> for a games directory with \<open>n\<close> valid entries: the fields, and
  the wheel items appended to \<^verbatim>\<open>wheel_item_group\<close> in the order of \<^verbatim>\<open>enumerate\<close>.
\<close>

definition wheel_init :: "nat \<Rightarrow> WheelUI" where
  "wheel_init n =
     \<lparr>master_index = 0, target_index = 0, master_angle = 0, target_angle = 0,
      bottom_angle = radians 90, num_items = int n,
      angle_increment = (if int n > 0 then 360 / real n else 0)\<rparr>"

text \<open>The constructor in the rounded model: \<^verbatim>\<open>360 / self.num_items\<close> rounds.\<close>

definition wheel_init_rounded :: "nat \<Rightarrow> WheelUI" where
  "wheel_init_rounded n =
     \<lparr>master_index = 0, target_index = 0, master_angle = 0, target_angle = 0,
      bottom_angle = radians 90, num_items = int n,
      angle_increment = (if int n > 0 then rnd (360 / real n) else 0)\<rparr>"

definition wheel_items :: "nat \<Rightarrow> WheelItem list" where
  "wheel_items n =
     map (\<lambda>i. \<lparr>index = int i,
               angle = radians (angle_increment (wheel_init n) * real i + 90)\<rparr>) [0..<n]"

text \<open>\<^verbatim>\<open>WheelUI.update\<close>, the per-frame interpolation step.\<close>

definition angle_diff :: "real \<Rightarrow> real \<Rightarrow> real" where
  "angle_diff target master =
     (let d = float_mod (target - master) 360 in if d > 180 then d - 360 else d)"

definition update :: "WheelUI \<Rightarrow> WheelUI" where
  "update w =
     (let w1 = w\<lparr>master_index := target_index w\<rparr>;
          w2 = w1\<lparr>target_angle := float_mod (target_angle w1) 360\<rparr>;
          d = angle_diff (target_angle w2) (master_angle w2);
          w3 = (if \<bar>d\<bar> > 1 then w2\<lparr>master_angle := master_angle w2 + d * 0.15\<rparr>
                else w2\<lparr>master_angle := target_angle w2\<rparr>)
      in w3\<lparr>master_angle := float_mod (master_angle w3) 360\<rparr>)"

text \<open>
  \<^verbatim>\<open>WheelUI.update\<close> in the rounded model: the subtractions, the product with the double
  nearest to 0.15, the addition and the three \<^verbatim>\<open>%\<close> round.
\<close>

definition update_rounded :: "WheelUI \<Rightarrow> WheelUI" where
  "update_rounded w =
     (let w1 = w\<lparr>master_index := target_index w\<rparr>;
          w2 = w1\<lparr>target_angle := float_mod_rounded (target_angle w1) 360\<rparr>;
          d0 = float_mod_rounded (rnd (target_angle w2 - master_angle w2)) 360;
          d = (if d0 > 180 then rnd (d0 - 360) else d0);
          w3 = (if \<bar>d\<bar> > 1
                then w2\<lparr>master_angle := rnd (master_angle w2 + rnd (d * rnd 0.15))\<rparr>
                else w2\<lparr>master_angle := target_angle w2\<rparr>)
      in w3\<lparr>master_angle := float_mod_rounded (master_angle w3) 360\<rparr>)"

text \<open>The signed difference \<open>update\<close> computes, as a function of the wheel state.\<close>

definition wheel_diff :: "WheelUI \<Rightarrow> real" where
  "wheel_diff w = angle_diff (target_angle w) (master_angle w)"

text \<open>
  \<^verbatim>\<open>WheelUI.get_bottom_item\<close>. \<^verbatim>\<open>min_diff\<close> starts at \<^verbatim>\<open>float('inf')\<close>, which every
  distance is below.
\<close>

datatype min_diff = Inf | Fin real

fun below :: "real \<Rightarrow> min_diff \<Rightarrow> bool" where
  "below d Inf = True"
| "below d (Fin m) = (d < m)"

definition item_diff :: "WheelUI \<Rightarrow> WheelItem \<Rightarrow> real" where
  "item_diff w it =
     (let item_angle = float_mod (angle it + radians (master_angle w)) (2 * pi);
          diff = \<bar>item_angle - bottom_angle w\<bar>
      in if diff > pi then 2 * pi - diff else diff)"

fun bottom_loop :: "WheelUI \<Rightarrow> WheelItem list \<Rightarrow> WheelItem option \<Rightarrow> min_diff \<Rightarrow> WheelItem option" where
  "bottom_loop w [] closest_item md = closest_item"
| "bottom_loop w (it # its) closest_item md =
     (let diff = item_diff w it
      in if below diff md then bottom_loop w its (Some it) (Fin diff)
         else bottom_loop w its closest_item md)"

definition get_bottom_item :: "WheelUI \<Rightarrow> WheelItem list \<Rightarrow> WheelItem option" where
  "get_bottom_item w items = bottom_loop w items None Inf"

text \<open>
  \<^verbatim>\<open>WheelItem.draw\<close>: which of the two zoom methods the item calls, given the items of
  \<^verbatim>\<open>wheel_item_group\<close>.
\<close>

datatype zoom = ZoomIn | ZoomOut | NoZoom

definition draw :: "WheelUI \<Rightarrow> WheelItem list \<Rightarrow> WheelItem \<Rightarrow> zoom" where
  "draw w items self =
     (case get_bottom_item w items of
        None \<Rightarrow> ZoomOut
      | Some bottom_item \<Rightarrow>
          if index self = index bottom_item
          then (if \<bar>master_angle w - target_angle w\<bar> < 6 then ZoomIn else NoZoom)
          else ZoomOut)"

section \<open>The emulator: key handling and the selected index\<close>

text \<open>
  The \<^verbatim>\<open>KEYDOWN\<close> branch of \<^verbatim>\<open>PygameEmulator.run\<close> after the start-up screen, for the
  two keys that move the wheel.
\<close>

datatype key = K_LEFT | K_RIGHT

fun key_down :: "key \<Rightarrow> WheelUI \<Rightarrow> py_error + WheelUI" where
  "key_down K_LEFT w =
     (case int_mod (target_index w - 1) (num_items w) of
        Inl e \<Rightarrow> Inl e
      | Inr t \<Rightarrow> Inr (w\<lparr>target_index := t, target_angle := angle_increment w * real_of_int t\<rparr>))"
| "key_down K_RIGHT w =
     (case int_mod (target_index w + 1) (num_items w) of
        Inl e \<Rightarrow> Inl e
      | Inr t \<Rightarrow> Inr (w\<lparr>target_index := t, target_angle := angle_increment w * real_of_int t\<rparr>))"

fun key_downs :: "key list \<Rightarrow> WheelUI \<Rightarrow> py_error + WheelUI" where
  "key_downs [] w = Inr w"
| "key_downs (k # ks) w =
     (case key_down k w of Inl e \<Rightarrow> Inl e | Inr w' \<Rightarrow> key_downs ks w')"

text \<open>The key handling in the rounded model: the product with the target index rounds.\<close>

fun key_down_rounded :: "key \<Rightarrow> WheelUI \<Rightarrow> py_error + WheelUI" where
  "key_down_rounded K_LEFT w =
     (case int_mod (target_index w - 1) (num_items w) of
        Inl e \<Rightarrow> Inl e
      | Inr t \<Rightarrow> Inr (w\<lparr>target_index := t,
                         target_angle := rnd (angle_increment w * real_of_int t)\<rparr>))"
| "key_down_rounded K_RIGHT w =
     (case int_mod (target_index w + 1) (num_items w) of
        Inl e \<Rightarrow> Inl e
      | Inr t \<Rightarrow> Inr (w\<lparr>target_index := t,
                         target_angle := rnd (angle_increment w * real_of_int t)\<rparr>))"



text \<open>The change of the target index a key asks for, before it is reduced modulo the item count.\<close>

fun key_delta :: "key \<Rightarrow> int" where
  "key_delta K_LEFT = -1"
| "key_delta K_RIGHT = 1"

text \<open>
  The wheel part of \<^verbatim>\<open>PygameEmulator.draw_menu\<close>: the wheel is updated, then
  \<^verbatim>\<open>selected_index\<close> is computed from \<^verbatim>\<open>len(self.games)\<close> and read from the list.
\<close>

definition selected_index :: "int \<Rightarrow> int \<Rightarrow> py_error + int" where
  "selected_index games_len mi = int_mod (\<bar>games_len - 1 - mi\<bar> + 1) games_len"

definition games_at :: "string list \<Rightarrow> int \<Rightarrow> py_error + string" where
  "games_at games i =
     (let n = int (length games); j = (if i < 0 then n + i else i)
      in if 0 \<le> j \<and> j < n then Inr (games ! nat j) else Inl IndexError)"

definition draw_menu :: "string list \<Rightarrow> WheelUI \<Rightarrow> py_error + (WheelUI \<times> int \<times> string)" where
  "draw_menu games w =
     (let w' = update w
      in case selected_index (int (length games)) (master_index w') of
           Inl e \<Rightarrow> Inl e
         | Inr i \<Rightarrow> (case games_at games i of
                      Inl e \<Rightarrow> Inl e
                    | Inr game_folder \<Rightarrow> Inr (w', i, game_folder)))"

text \<open>
  Frames and key presses in any order, in the rounded model, stopping at the first
  exception.
\<close>

datatype wheel_op = Key key | Frame

fun apply_op_rounded :: "wheel_op \<Rightarrow> WheelUI \<Rightarrow> py_error + WheelUI" where
  "apply_op_rounded (Key k) w = key_down_rounded k w"
| "apply_op_rounded Frame w = Inr (update_rounded w)"

fun wheel_ops_rounded :: "wheel_op list \<Rightarrow> WheelUI \<Rightarrow> py_error + WheelUI" where
  "wheel_ops_rounded [] w = Inr w"
| "wheel_ops_rounded (x # xs) w =
     (case apply_op_rounded x w of Inl e \<Rightarrow> Inl e | Inr w' \<Rightarrow> wheel_ops_rounded xs w')"

section \<open>The power button\<close>

text \<open>
  \<^verbatim>\<open>PowerButtonMonitor\<close>: the callback takes the reading of \<^verbatim>\<open>time.time()\<close> as an
  argument; the queue holds the events put so far, oldest first.
\<close>

datatype event = QUIT

record PowerButtonMonitor =
  debounce_time :: real
  last_time :: real
  event_queue :: "event list"

definition power_init :: "real \<Rightarrow> PowerButtonMonitor" where
  "power_init d = \<lparr>debounce_time = d, last_time = 0, event_queue = []\<rparr>"

definition handle_button_press :: "real \<Rightarrow> PowerButtonMonitor \<Rightarrow> PowerButtonMonitor" where
  "handle_button_press current_time m =
     (if current_time - last_time m \<ge> debounce_time m
      then m\<lparr>event_queue := event_queue m @ [QUIT], last_time := current_time\<rparr>
      else m)"

fun presses :: "real list \<Rightarrow> PowerButtonMonitor \<Rightarrow> PowerButtonMonitor" where
  "presses [] m = m"
| "presses (t # ts) m = presses ts (handle_button_press t m)"

section \<open>Facts about the float remainder\<close>

lemma float_mod_range:
  assumes "0 < m" shows "0 \<le> float_mod x m" and "float_mod x m < m"
proof -
  have a: "of_int \<lfloor>x / m\<rfloor> \<le> x / m" by (rule of_int_floor_le)
  have b: "x / m < of_int \<lfloor>x / m\<rfloor> + 1" by linarith
  have "m * of_int \<lfloor>x / m\<rfloor> \<le> m * (x / m)"
    using a assms by (intro mult_left_mono) linarith+
  then show "0 \<le> float_mod x m" using assms by (simp add: float_mod_def)
  have "m * (x / m) < m * (of_int \<lfloor>x / m\<rfloor> + 1)"
    using b assms by (intro mult_strict_left_mono) linarith+
  then show "float_mod x m < m" using assms by (simp add: float_mod_def algebra_simps)
qed

lemma float_mod_unique:
  assumes "0 < m" "0 \<le> y" "y < m" "x = y + m * of_int k"
  shows "float_mod x m = y"
proof -
  have "x / m = y / m + of_int k" using assms by (simp add: add_divide_distrib)
  moreover have "\<lfloor>y / m\<rfloor> = 0" using assms by (simp add: floor_eq_iff)
  ultimately have "\<lfloor>x / m\<rfloor> = k" by simp
  then show ?thesis using assms by (simp add: float_mod_def)
qed

lemma float_mod_id: "0 < m \<Longrightarrow> 0 \<le> x \<Longrightarrow> x < m \<Longrightarrow> float_mod x m = x"
  using float_mod_unique[of m x x 0] by simp

lemma float_mod_shift:
  assumes "0 < m" shows "float_mod (x + m * of_int k) m = float_mod x m"
proof -
  have "x + m * of_int k = float_mod x m + m * of_int (\<lfloor>x / m\<rfloor> + k)"
    by (simp add: float_mod_def algebra_simps)
  then show ?thesis
    using float_mod_unique[OF assms float_mod_range[OF assms, of x]] by blast
qed

section \<open>Key handling\<close>

lemma key_down_ok:
  assumes "num_items w > 0"
  shows "key_down k w = Inr (w\<lparr>target_index := (target_index w + key_delta k) mod num_items w,
            target_angle := angle_increment w * real_of_int ((target_index w + key_delta k) mod num_items w)\<rparr>)"
  using assms by (cases k) (simp_all add: int_mod_def)

lemma key_downs_ok:
  assumes "num_items w > 0"
  shows "\<exists>w'. key_downs ks w = Inr w' \<and> num_items w' = num_items w
           \<and> angle_increment w' = angle_increment w
           \<and> target_index w' = (if ks = [] then target_index w
                else (target_index w + sum_list (map key_delta ks)) mod num_items w)
           \<and> target_angle w' = (if ks = [] then target_angle w
                else angle_increment w * real_of_int (target_index w'))"
  using assms
proof (induction ks arbitrary: w)
  case Nil
  then show ?case by simp
next
  case (Cons k ks)
  let ?w1 = "w\<lparr>target_index := (target_index w + key_delta k) mod num_items w,
            target_angle := angle_increment w * real_of_int ((target_index w + key_delta k) mod num_items w)\<rparr>"
  have k: "key_down k w = Inr ?w1" using Cons.prems by (rule key_down_ok)
  have n1: "num_items ?w1 > 0" using Cons.prems by simp
  from Cons.IH[OF n1] obtain w' where w': "key_downs ks ?w1 = Inr w'"
    "num_items w' = num_items ?w1" "angle_increment w' = angle_increment ?w1"
    "target_index w' = (if ks = [] then target_index ?w1
        else (target_index ?w1 + sum_list (map key_delta ks)) mod num_items ?w1)"
    "target_angle w' = (if ks = [] then target_angle ?w1
                else angle_increment ?w1 * real_of_int (target_index w'))"
    by blast
  have "key_downs (k # ks) w = Inr w'" using k w'(1) by simp
  moreover have "target_index w' = (target_index w + sum_list (map key_delta (k # ks))) mod num_items w"
    using w'(4) by (simp add: mod_add_left_eq add.assoc)
  moreover have "target_angle w' = angle_increment w * real_of_int (target_index w')"
    using w'(4,5) by (cases "ks = []") simp_all
  ultimately show ?case using w'(2,3) by simp
qed

text \<open>
  Claim C4. With at least one item, any non-empty sequence of left and right key presses,
  from any wheel state, raises nothing and leaves \<open>target_index\<close> in \<open>[0, num_items)\<close>: it is
  the starting index plus the sum of the steps, reduced modulo the item count, and
  \<open>target_angle\<close> is \<open>angle_increment * target_index\<close>. Five steps to the right from index 0
  with four items end at index 1.
\<close>

theorem set_target_normalized:
  assumes "num_items w > 0" and "ks \<noteq> []"
  shows "\<exists>w'. key_downs ks w = Inr w'
           \<and> 0 \<le> target_index w' \<and> target_index w' < num_items w
           \<and> target_index w' = (target_index w + sum_list (map key_delta ks)) mod num_items w
           \<and> target_angle w' = angle_increment w * real_of_int (target_index w')"
proof -
  from key_downs_ok[OF assms(1), of ks] assms(2) obtain w' where
    w': "key_downs ks w = Inr w'"
        "target_index w' = (target_index w + sum_list (map key_delta ks)) mod num_items w"
        "target_angle w' = angle_increment w * real_of_int (target_index w')"
    by auto
  have "0 \<le> target_index w'" "target_index w' < num_items w"
    using w'(2) assms(1) by simp_all
  then show ?thesis using w' by blast
qed

theorem set_target_normalized_witness:
  "num_items (wheel_init 4) > 0 \<and> [K_RIGHT, K_RIGHT, K_RIGHT, K_RIGHT, K_RIGHT] \<noteq> []
   \<and> (\<exists>w'. key_downs [K_RIGHT, K_RIGHT, K_RIGHT, K_RIGHT, K_RIGHT] (wheel_init 4) = Inr w'
        \<and> target_index w' = 1 \<and> target_angle w' = 90)"
proof -
  have n: "num_items (wheel_init 4) > 0" by (simp add: wheel_init_def)
  have k: "[K_RIGHT, K_RIGHT, K_RIGHT, K_RIGHT, K_RIGHT] \<noteq> []" by simp
  from set_target_normalized[OF n k] obtain w' where
    "key_downs [K_RIGHT, K_RIGHT, K_RIGHT, K_RIGHT, K_RIGHT] (wheel_init 4) = Inr w'"
    "target_index w' = 1" "target_angle w' = 90"
    by (auto simp: wheel_init_def)
  then show ?thesis using n k by blast
qed

section \<open>The interpolation step\<close>

lemma float_mod_congr: "\<exists>k::int. float_mod x m = x + m * of_int k"
proof -
  have "float_mod x m = x + m * of_int (- \<lfloor>x / m\<rfloor>)" by (simp add: float_mod_def)
  then show ?thesis by blast
qed

lemma angle_diff_range: "- 180 < angle_diff t c" "angle_diff t c \<le> 180"
  using float_mod_range[of 360 "t - c"] by (auto simp: angle_diff_def Let_def)

lemma angle_diff_unique:
  assumes "- 180 < y" "y \<le> 180" "t - c = y + 360 * of_int k"
  shows "angle_diff t c = y"
proof (cases "0 \<le> y")
  case True
  then have "float_mod (t - c) 360 = y"
    using assms by (intro float_mod_unique[where k = k]) auto
  then show ?thesis using assms by (simp add: angle_diff_def)
next
  case False
  have "t - c = (y + 360) + 360 * of_int (k - 1)" using assms(3) by simp
  then have "float_mod (t - c) 360 = y + 360"
    using assms False by (intro float_mod_unique[where k = "k - 1"]) auto
  then show ?thesis using assms False by (simp add: angle_diff_def)
qed

lemma angle_diff_congr: "\<exists>k::int. t - c = angle_diff t c + 360 * of_int k"
proof -
  obtain k :: int where k: "float_mod (t - c) 360 = (t - c) + 360 * of_int k"
    using float_mod_congr by blast
  show ?thesis
  proof (cases "float_mod (t - c) 360 > 180")
    case True
    then have "t - c = angle_diff t c + 360 * of_int (1 - k)"
      using k by (simp add: angle_diff_def)
    then show ?thesis by blast
  next
    case False
    then have "t - c = angle_diff t c + 360 * of_int (- k)"
      using k by (simp add: angle_diff_def)
    then show ?thesis by blast
  qed
qed

lemma angle_diff_float_mod_target: "angle_diff (float_mod t 360) c = angle_diff t c"
proof -
  obtain k :: int where k: "float_mod t 360 = t + 360 * of_int k"
    using float_mod_congr by blast
  obtain j :: int where j: "t - c = angle_diff t c + 360 * of_int j"
    using angle_diff_congr by blast
  have "float_mod t 360 - c = angle_diff t c + 360 * of_int (j + k)"
    using k j by simp
  then show ?thesis
    using angle_diff_range[of t c] by (intro angle_diff_unique[where k = "j + k"]) auto
qed

lemma float_mod_idem: "float_mod (float_mod x 360) 360 = float_mod x 360"
  using float_mod_range[of 360 x] by (intro float_mod_id) auto

lemma update_target: "target_angle (update w) = float_mod (target_angle w) 360"
  by (simp add: update_def Let_def)

lemma update_master:
  "master_angle (update w) =
     (if \<bar>angle_diff (target_angle w) (master_angle w)\<bar> > 1
      then float_mod (master_angle w + angle_diff (target_angle w) (master_angle w) * 0.15) 360
      else float_mod (target_angle w) 360)"
  by (simp add: update_def Let_def angle_diff_float_mod_target float_mod_idem)

lemma update_other:
  "master_index (update w) = target_index w" "target_index (update w) = target_index w"
  "num_items (update w) = num_items w" "angle_increment (update w) = angle_increment w"
  "bottom_angle (update w) = bottom_angle w"
  by (simp_all add: update_def Let_def)

lemma angle_diff_self: "angle_diff t t = 0"
  by (simp add: angle_diff_def float_mod_def)

lemma update_diff:
  "wheel_diff (update w) = (if \<bar>wheel_diff w\<bar> > 1 then 0.85 * wheel_diff w else 0)"
proof (cases "\<bar>wheel_diff w\<bar> > 1")
  case True
  let ?d = "angle_diff (target_angle w) (master_angle w)"
  have m: "master_angle (update w) = float_mod (master_angle w + ?d * 0.15) 360"
    using True by (simp add: update_master wheel_diff_def)
  obtain k1 :: int where k1: "float_mod (master_angle w + ?d * 0.15) 360
      = master_angle w + ?d * 0.15 + 360 * of_int k1"
    using float_mod_congr by blast
  obtain k2 :: int where k2: "float_mod (target_angle w) 360 = target_angle w + 360 * of_int k2"
    using float_mod_congr by blast
  obtain k3 :: int where k3: "target_angle w - master_angle w = ?d + 360 * of_int k3"
    using angle_diff_congr by blast
  have "target_angle (update w) - master_angle (update w)
        = 0.85 * ?d + 360 * of_int (k3 + k2 - k1)"
    using m k1 k2 k3 by (simp add: update_target)
  moreover have "- 180 < 0.85 * ?d" "0.85 * ?d \<le> 180"
    using angle_diff_range[of "target_angle w" "master_angle w"] by simp_all
  ultimately have "angle_diff (target_angle (update w)) (master_angle (update w)) = 0.85 * ?d"
    by (intro angle_diff_unique[where k = "k3 + k2 - k1"]) auto
  then show ?thesis using True by (simp add: wheel_diff_def)
next
  case False
  then have "master_angle (update w) = target_angle (update w)"
    by (simp add: update_master update_target wheel_diff_def)
  then show ?thesis using False by (simp add: wheel_diff_def angle_diff_self)
qed

lemma update_snap:
  "\<bar>wheel_diff w\<bar> \<le> 1 \<Longrightarrow> master_angle (update w) = target_angle (update w)"
  by (simp add: update_master update_target wheel_diff_def)

lemma funpow_diff_bound: "\<bar>wheel_diff ((update ^^ n) w)\<bar> \<le> 0.85 ^ n * 180"
proof (induction n)
  case 0
  then show ?case using angle_diff_range[of "target_angle w" "master_angle w"]
    by (simp add: wheel_diff_def)
next
  case (Suc n)
  have "\<bar>wheel_diff ((update ^^ Suc n) w)\<bar> \<le> 0.85 * \<bar>wheel_diff ((update ^^ n) w)\<bar>"
    by (simp add: update_diff abs_mult)
  also have "\<dots> \<le> 0.85 * (0.85 ^ n * 180)" using Suc by simp
  finally show ?case by simp
qed

lemma funpow_target:
  "target_angle ((update ^^ Suc n) w) = float_mod (target_angle w) 360"
  by (induction n) (simp_all add: update_target float_mod_idem)

lemma small_diff_32: "\<bar>wheel_diff ((update ^^ 32) w)\<bar> \<le> 1"
proof -
  have "(0.85::real) ^ 32 * 180 \<le> 1" by (simp add: power_numeral_reduce)
  then show ?thesis using funpow_diff_bound[of 32 w] by linarith
qed

lemma converged_stays:
  "master_angle ((update ^^ (33 + k)) w) = target_angle ((update ^^ (33 + k)) w)"
proof (induction k)
  case 0
  have "(update ^^ 33) w = update ((update ^^ 32) w)" by (simp add: numeral_eq_Suc)
  then show ?case using update_snap[OF small_diff_32[of w]] by simp
next
  case (Suc k)
  let ?w = "(update ^^ (33 + k)) w"
  have "wheel_diff ?w = 0" using Suc by (simp add: wheel_diff_def angle_diff_self)
  then have s: "master_angle (update ?w) = target_angle (update ?w)"
    by (intro update_snap) simp
  have e: "(update ^^ (33 + Suc k)) w = update ?w"
    by (simp only: add_Suc_right funpow.simps comp_apply)
  show ?case unfolding e by (rule s)
qed

text \<open>
  Claim C2. From any wheel state, after 33 calls of \<open>update\<close> and after every further call,
  \<open>master_angle\<close> equals \<open>target_angle\<close> exactly; \<open>target_angle\<close> is, from the first call on, the
  starting target modulo 360, hence the starting target itself when that is in \<open>[0, 360)\<close>.
  On the way the signed difference is multiplied by 0.85 at every call while its absolute
  value is above 1 and is 0 afterwards, so it never changes sign and never grows.
\<close>

theorem update_converges:
  "master_angle ((update ^^ (33 + k)) w) = target_angle ((update ^^ (33 + k)) w)
   \<and> target_angle ((update ^^ Suc n) w) = float_mod (target_angle w) 360
   \<and> (0 \<le> target_angle w \<and> target_angle w < 360 \<longrightarrow>
        master_angle ((update ^^ (33 + k)) w) = target_angle w)
   \<and> wheel_diff ((update ^^ Suc n) w)
       = (if \<bar>wheel_diff ((update ^^ n) w)\<bar> > 1 then 0.85 * wheel_diff ((update ^^ n) w) else 0)"
proof -
  have "(update ^^ (33 + k)) w = (update ^^ Suc (32 + k)) w" by simp
  then have "target_angle ((update ^^ (33 + k)) w) = float_mod (target_angle w) 360"
    using funpow_target[of "32 + k" w] by simp
  then have "0 \<le> target_angle w \<and> target_angle w < 360 \<longrightarrow>
        master_angle ((update ^^ (33 + k)) w) = target_angle w"
    using converged_stays[of k w] by (simp add: float_mod_id)
  then show ?thesis
    using converged_stays[of k w] funpow_target[of n w] update_diff[of "(update ^^ n) w"]
    by simp
qed

theorem update_converges_witness:
  "0 \<le> target_angle ((wheel_init 4)\<lparr>target_index := 1, target_angle := 90\<rparr>)
   \<and> target_angle ((wheel_init 4)\<lparr>target_index := 1, target_angle := 90\<rparr>) < 360
   \<and> master_angle ((update ^^ (33 + 0)) ((wheel_init 4)\<lparr>target_index := 1, target_angle := 90\<rparr>)) = 90"
  using update_converges[of 0 "(wheel_init 4)\<lparr>target_index := 1, target_angle := 90\<rparr>" 0]
  by (simp add: wheel_init_def)

section \<open>The interpolation step with rounding\<close>

lemma bitlen_one: "bitlen 1 = 1"
  by (subst compute_bitlen) simp

lemma bitlen_Bit0: "bitlen (numeral (Num.Bit0 n)) = bitlen (numeral n) + 1"
  by (subst compute_bitlen) simp

lemma bitlen_Bit1: "bitlen (numeral (Num.Bit1 n)) = bitlen (numeral n) + 1"
  by (subst compute_bitlen) simp

lemmas bitlen_numeral_simps = bitlen_one bitlen_Bit0 bitlen_Bit1

lemma round_half_even_nearest:
  assumes "- 1 / 2 < q - of_int n" "q - of_int n < 1 / 2"
  shows "round_half_even q = n"
proof (cases "0 \<le> q - of_int n")
  case True
  then have "\<lfloor>q\<rfloor> = n" using assms by (simp add: floor_eq_iff) 
  then show ?thesis using assms by (simp add: round_half_even_def Let_def)
next
  case False
  then have f: "\<lfloor>q\<rfloor> = n - 1" using assms by (simp add: floor_eq_iff) 
  have "\<not> q - of_int (n - 1) < 1 / 2" "1 / 2 < q - of_int (n - 1)" using assms(1) by simp_all
  then show ?thesis unfolding round_half_even_def Let_def f by simp
qed

lemma rnd_nearest:
  assumes "exponent x = e" "- 1022 \<le> e" "ulp e = u" "0 < u"
    and "- u / 2 < x - of_int n * u" "x - of_int n * u < u / 2"
  shows "rnd x = of_int n * u"
proof (cases "x = 0")
  case True
  then have "\<bar>of_int n * u\<bar> < u / 2" using assms(5,6) by simp
  then have "\<bar>real_of_int n\<bar> * u < 1 / 2 * u" using assms(4) by (simp add: abs_mult)
  then have "\<bar>real_of_int n\<bar> < 1 / 2" using assms(4) by simp
  then have "n = 0" by linarith
  then show ?thesis using True by (simp add: rnd_def)
next
  case False
  have "x / u - of_int n = (x - of_int n * u) / u" using assms(4) by (simp add: field_simps)
  moreover have "- 1 / 2 < (x - of_int n * u) / u" "(x - of_int n * u) / u < 1 / 2"
    using assms(4,5,6) by (simp_all add: field_simps)
  ultimately have "round_half_even (x / u) = n"
    by (intro round_half_even_nearest) simp_all
  moreover have "max (exponent x) (- 1022) = e" using assms(1,2) by simp
  ultimately show ?thesis using False assms(3) by (simp add: rnd_def Let_def)
qed


lemma exponent_bounds:
  assumes "x \<noteq> 0"
  shows "ulp (exponent x + 52) \<le> \<bar>x\<bar>" and "\<bar>x\<bar> < 2 * ulp (exponent x + 52)"
proof -
  let ?a = "\<bar>x\<bar>"
  have a: "0 < ?a" using assms by simp
  have "ulp (exponent x + 52) \<le> ?a \<and> ?a < 2 * ulp (exponent x + 52)"
  proof (cases "1 \<le> ?a")
    case True
    let ?f = "\<lfloor>?a\<rfloor>"
    have f: "0 < ?f" using True by linarith
    have e: "exponent x = bitlen ?f - 1" using True by (simp add: exponent_def)
    have b: "1 \<le> bitlen ?f" using f bitlen_eq_zero_iff[of ?f] bitlen_nonneg[of ?f] by linarith
    from bitlen_bounds[OF f] have lo: "(2::int) ^ nat (bitlen ?f - 1) \<le> ?f"
      and hi: "?f < 2 ^ nat (bitlen ?f)" by blast+
    have u: "ulp (exponent x + 52) = 2 ^ nat (bitlen ?f - 1)"
      using b by (simp add: ulp_def e)
    have "(2::real) ^ nat (bitlen ?f - 1) = real_of_int (2 ^ nat (bitlen ?f - 1))" by simp
    also have "\<dots> \<le> real_of_int ?f" using lo by (simp only: of_int_le_iff)
    also have "\<dots> \<le> ?a" by (rule of_int_floor_le)
    finally have 1: "ulp (exponent x + 52) \<le> ?a" unfolding u .
    have "?f + 1 \<le> 2 ^ nat (bitlen ?f)" using hi by simp
    then have "real_of_int (?f + 1) \<le> real_of_int (2 ^ nat (bitlen ?f))"
      by (simp only: of_int_le_iff)
    then have h1: "real_of_int ?f + 1 \<le> 2 ^ nat (bitlen ?f)" by simp
    have h2: "?a < real_of_int ?f + 1" by linarith
    have h3: "(2::real) ^ nat (bitlen ?f) = 2 * 2 ^ nat (bitlen ?f - 1)"
    proof -
      have "nat (bitlen ?f) = Suc (nat (bitlen ?f - 1))" using b by simp
      then show ?thesis by simp
    qed
    have 2: "?a < 2 * ulp (exponent x + 52)" unfolding u using h1 h2 h3 by linarith
    show ?thesis using 1 2 by blast
  next
    case False
    let ?c = "\<lceil>1 / ?a\<rceil> - 1"
    have y: "1 < 1 / ?a" using False a by simp
    then have c: "0 < ?c" by linarith
    have e: "exponent x = - bitlen ?c" using False by (simp add: exponent_def Let_def)
    have b: "1 \<le> bitlen ?c" using c bitlen_eq_zero_iff[of ?c] bitlen_nonneg[of ?c] by linarith
    from bitlen_bounds[OF c] have lo: "(2::int) ^ nat (bitlen ?c - 1) \<le> ?c"
      and hi: "?c < 2 ^ nat (bitlen ?c)" by blast+
    have u: "ulp (exponent x + 52) = 1 / 2 ^ nat (bitlen ?c)"
      using b by (simp add: ulp_def e)
    have "?c + 1 \<le> 2 ^ nat (bitlen ?c)" using hi by simp
    then have "real_of_int (?c + 1) \<le> real_of_int (2 ^ nat (bitlen ?c))"
      by (simp only: of_int_le_iff)
    then have g1: "real_of_int ?c + 1 \<le> 2 ^ nat (bitlen ?c)" by simp
    have g2: "1 / ?a \<le> real_of_int ?c + 1" by linarith
    have "1 / ?a \<le> 2 ^ nat (bitlen ?c)" using g1 g2 by linarith
    then have "1 \<le> 2 ^ nat (bitlen ?c) * ?a" using a by (simp add: field_simps)
    then have 1: "ulp (exponent x + 52) \<le> ?a" unfolding u by (simp add: field_simps)
    have "real_of_int (2 ^ nat (bitlen ?c - 1)) \<le> real_of_int ?c"
      using lo by (simp only: of_int_le_iff)
    then have g3: "2 ^ nat (bitlen ?c - 1) \<le> real_of_int ?c" by simp
    have g4: "real_of_int ?c < 1 / ?a" by linarith
    have "2 ^ nat (bitlen ?c - 1) < 1 / ?a" using g3 g4 by linarith
    then have g5: "2 ^ nat (bitlen ?c - 1) * ?a < 1" using a by (simp add: field_simps)
    have g6: "(2::real) ^ nat (bitlen ?c) = 2 * 2 ^ nat (bitlen ?c - 1)"
    proof -
      have "nat (bitlen ?c) = Suc (nat (bitlen ?c - 1))" using b by simp
      then show ?thesis by simp
    qed
    have "?a * 2 ^ nat (bitlen ?c) < 2" using g5 g6 by (simp add: mult.commute)
    then have 2: "?a < 2 * ulp (exponent x + 52)" unfolding u by (simp add: field_simps)
    show ?thesis using 1 2 by blast
  qed
  then show "ulp (exponent x + 52) \<le> \<bar>x\<bar>" and "\<bar>x\<bar> < 2 * ulp (exponent x + 52)" by blast+
qed

lemma rnd_zero: "rnd 0 = 0"
  by (simp add: rnd_def)

lemma float_mod_rounded_in_range:
  assumes "0 \<le> x" "x < 360"
  shows "float_mod_rounded x 360 = x"
proof -
  have "\<lfloor>x / 360\<rfloor> = 0" using assms by (simp add: floor_eq_iff)
  then show ?thesis using assms by (simp add: float_mod_rounded_def Let_def)
qed

lemma float_mod_rounded_small_negative:
  assumes "- 360 < x" "x < 0"
  shows "float_mod_rounded x 360 = rnd (x + 360)"
proof -
  have "\<lceil>x / 360\<rceil> = 0" using assms by (simp add: ceiling_eq_iff)
  then show ?thesis using assms by (simp add: float_mod_rounded_def Let_def)
qed

lemma update_rounded_wrap:
  assumes "float_mod_rounded (target_angle w) 360 = t"
    and "rnd (t - master_angle w) = s"
    and "float_mod_rounded s 360 = d0"
    and "d0 > 180"
    and "rnd (d0 - 360) = d"
    and "\<bar>d\<bar> > 1"
    and "rnd 0.15 = c"
    and "rnd (d * c) = p"
    and "rnd (master_angle w + p) = q"
    and "float_mod_rounded q 360 = r"
  shows "update_rounded w = w\<lparr>master_index := target_index w, target_angle := t, master_angle := r\<rparr>"
  using assms(4,6) unfolding update_rounded_def Let_def
  by (simp add: assms(1,2,3,5,8,9,10) assms(7)[simplified])

lemma update_rounded_direct:
  assumes "float_mod_rounded (target_angle w) 360 = t"
    and "rnd (t - master_angle w) = s"
    and "float_mod_rounded s 360 = d"
    and "\<not> d > 180"
    and "\<bar>d\<bar> > 1"
    and "rnd 0.15 = c"
    and "rnd (d * c) = p"
    and "rnd (master_angle w + p) = q"
    and "float_mod_rounded q 360 = r"
  shows "update_rounded w = w\<lparr>master_index := target_index w, target_angle := t, master_angle := r\<rparr>"
  using assms(4,5) unfolding update_rounded_def Let_def
  by (simp add: assms(1,2,3,7,8,9) assms(6)[simplified])

lemma key_rights_rounded:
  assumes "0 \<le> target_index w" "target_index w + int (Suc k) < num_items w"
  shows "wheel_ops_rounded (replicate (Suc k) (Key K_RIGHT) @ xs) w
         = wheel_ops_rounded xs
             (w\<lparr>target_index := target_index w + int (Suc k),
                target_angle := rnd (angle_increment w * real_of_int (target_index w + int (Suc k)))\<rparr>)"
  using assms
proof (induction k arbitrary: w)
  case 0
  then have "(target_index w + 1) mod num_items w = target_index w + 1"
    by (intro mod_pos_pos_trivial) simp_all
  then show ?case using 0 by (simp add: int_mod_def)
next
  case (Suc k)
  let ?w1 = "w\<lparr>target_index := target_index w + 1,
                target_angle := rnd (angle_increment w * real_of_int (target_index w + 1))\<rparr>"
  have m: "(target_index w + 1) mod num_items w = target_index w + 1"
    using Suc.prems by (intro mod_pos_pos_trivial) simp_all
  have n0: "num_items w \<noteq> 0" using Suc.prems by linarith
  have s: "wheel_ops_rounded (replicate (Suc (Suc k)) (Key K_RIGHT) @ xs) w
           = wheel_ops_rounded (replicate (Suc k) (Key K_RIGHT) @ xs) ?w1"
    using m n0 by (simp add: int_mod_def)
  have p: "0 \<le> target_index ?w1" "target_index ?w1 + int (Suc k) < num_items ?w1"
    using Suc.prems by simp_all
  show ?case unfolding s Suc.IH[OF p] by (simp add: add.assoc)
qed

text \<open>The roundings that the two runs below go through.\<close>

lemma rnd_step_1: "rnd (60 / 7) = 4825285315039817 / 562949953421312"
proof -
  have "rnd (60 / 7) = of_int (4825285315039817) * (1 / 2 ^ 49)"
    by (rule rnd_nearest[where e = "3"])
      (simp_all add: exponent_def bitlen_numeral_simps ulp_def)
  then show ?thesis by simp
qed

lemma rnd_step_2: "rnd (24126426575199085 / 140737488355328) = 6031606643799771 / 35184372088832"
proof -
  have "rnd (24126426575199085 / 140737488355328) = of_int (6031606643799771) * (1 / 2 ^ 45)"
    by (rule rnd_nearest[where e = "7"])
      (simp_all add: exponent_def bitlen_numeral_simps ulp_def)
  then show ?thesis by simp
qed

lemma rnd_step_3: "rnd (6031606643799771 / 35184372088832) = 6031606643799771 / 35184372088832"
proof -
  have "rnd (6031606643799771 / 35184372088832) = of_int (6031606643799771) * (1 / 2 ^ 45)"
    by (rule rnd_nearest[where e = "7"])
      (simp_all add: exponent_def bitlen_numeral_simps ulp_def)
  then show ?thesis by simp
qed

lemma rnd_step_4: "rnd (3 / 20) = 5404319552844595 / 36028797018963968"
proof -
  have "rnd (3 / 20) = of_int (5404319552844595) * (1 / 2 ^ 55)"
    by (rule rnd_nearest[where e = "-3"])
      (simp_all add: exponent_def bitlen_numeral_simps ulp_def)
  then show ?thesis by simp
qed

lemma rnd_step_5: "rnd (32596729720154466801742659587745 / 1267650600228229401496703205376) = 7237927972559725 / 281474976710656"
proof -
  have "rnd (32596729720154466801742659587745 / 1267650600228229401496703205376) = of_int (7237927972559725) * (1 / 2 ^ 48)"
    by (rule rnd_nearest[where e = "4"])
      (simp_all add: exponent_def bitlen_numeral_simps ulp_def)
  then show ?thesis by simp
qed

lemma rnd_step_6: "rnd (7237927972559725 / 281474976710656) = 7237927972559725 / 281474976710656"
proof -
  have "rnd (7237927972559725 / 281474976710656) = of_int (7237927972559725) * (1 / 2 ^ 48)"
    by (rule rnd_nearest[where e = "4"])
      (simp_all add: exponent_def bitlen_numeral_simps ulp_def)
  then show ?thesis by simp
qed

lemma rnd_step_7: "rnd (120632132875995425 / 562949953421312) = 3769754152374857 / 17592186044416"
proof -
  have "rnd (120632132875995425 / 562949953421312) = of_int (7539508304749714) * (1 / 2 ^ 45)"
    by (rule rnd_nearest[where e = "7"])
      (simp_all add: exponent_def bitlen_numeral_simps ulp_def)
  then show ?thesis by simp
qed

lemma rnd_step_8: "rnd (53078138465437987 / 281474976710656) = 1658691827044937 / 8796093022208"
proof -
  have "rnd (53078138465437987 / 281474976710656) = of_int (6634767308179748) * (1 / 2 ^ 45)"
    by (rule rnd_nearest[where e = "7"])
      (simp_all add: exponent_def bitlen_numeral_simps ulp_def)
  then show ?thesis by simp
qed

lemma rnd_step_9: "rnd (- (1507901660949943 / 8796093022208)) = - (1507901660949943 / 8796093022208)"
proof -
  have "rnd (- (1507901660949943 / 8796093022208)) = of_int (-6031606643799772) * (1 / 2 ^ 45)"
    by (rule rnd_nearest[where e = "7"])
      (simp_all add: exponent_def bitlen_numeral_simps ulp_def)
  then show ?thesis by simp
qed

lemma rnd_step_10: "rnd (- (8149182430038618051515553108085 / 316912650057057350374175801344)) = - (3618963986279863 / 140737488355328)"
proof -
  have "rnd (- (8149182430038618051515553108085 / 316912650057057350374175801344)) = of_int (-7237927972559726) * (1 / 2 ^ 48)"
    by (rule rnd_nearest[where e = "4"])
      (simp_all add: exponent_def bitlen_numeral_simps ulp_def)
  then show ?thesis by simp
qed

lemma rnd_step_11: "rnd (- (1 / 281474976710656)) = - (1 / 281474976710656)"
proof -
  have "rnd (- (1 / 281474976710656)) = of_int (-4503599627370496) * (1 / 2 ^ 100)"
    by (rule rnd_nearest[where e = "-48"])
      (simp_all add: exponent_def bitlen_numeral_simps ulp_def)
  then show ?thesis by simp
qed

lemma rnd_step_12: "rnd (101330991615836159 / 281474976710656) = 360"
proof -
  have "rnd (101330991615836159 / 281474976710656) = of_int (6333186975989760) * (1 / 2 ^ 44)"
    by (rule rnd_nearest[where e = "8"])
      (simp_all add: exponent_def bitlen_numeral_simps ulp_def)
  then show ?thesis by simp
qed

lemma rnd_step_13: "rnd (8769028120601205 / 35184372088832) = 8769028120601205 / 35184372088832"
proof -
  have "rnd (8769028120601205 / 35184372088832) = of_int (8769028120601205) * (1 / 2 ^ 45)"
    by (rule rnd_nearest[where e = "7"])
      (simp_all add: exponent_def bitlen_numeral_simps ulp_def)
  then show ?thesis by simp
qed

lemma rnd_step_14: "rnd (- (3897345831378315 / 35184372088832)) = - (3897345831378315 / 35184372088832)"
proof -
  have "rnd (- (3897345831378315 / 35184372088832)) = of_int (-7794691662756630) * (1 / 2 ^ 46)"
    by (rule rnd_nearest[where e = "6"])
      (simp_all add: exponent_def bitlen_numeral_simps ulp_def)
  then show ?thesis by simp
qed

lemma rnd_step_15: "rnd (- (21062502280715201665767847957425 / 1267650600228229401496703205376)) = - (2338407498826989 / 140737488355328)"
proof -
  have "rnd (- (21062502280715201665767847957425 / 1267650600228229401496703205376)) = of_int (-4676814997653978) * (1 / 2 ^ 48)"
    by (rule rnd_nearest[where e = "4"])
      (simp_all add: exponent_def bitlen_numeral_simps ulp_def)
  then show ?thesis by simp
qed

lemma rnd_step_16: "rnd (- (1 / 140737488355328)) = - (1 / 140737488355328)"
proof -
  have "rnd (- (1 / 140737488355328)) = of_int (-4503599627370496) * (1 / 2 ^ 99)"
    by (rule rnd_nearest[where e = "-47"])
      (simp_all add: exponent_def bitlen_numeral_simps ulp_def)
  then show ?thesis by simp
qed

lemma rnd_step_17: "rnd (50665495807918079 / 140737488355328) = 360"
proof -
  have "rnd (50665495807918079 / 140737488355328) = of_int (6333186975989760) * (1 / 2 ^ 44)"
    by (rule rnd_nearest[where e = "8"])
      (simp_all add: exponent_def bitlen_numeral_simps ulp_def)
  then show ?thesis by simp
qed

text \<open>
  Claim C1 fails on the code in its last part. With 65 items, \<open>master_angle\<close> at the angle
  of index 3 (16.615384615384613) and \<open>target_angle\<close> at the angle of index 48
  (265.8461538461538), the signed difference is about -110.77, the step added to
  \<open>master_angle\<close> leaves \<open>-2^(-47)\<close>, and the final \<^verbatim>\<open>%= 360\<close> rounds \<open>360 - 2^(-47)\<close> to 360:
  \<open>update_rounded\<close> returns \<open>master_angle = 360\<close>, which is not in \<open>[0, 360)\<close>.
\<close>

theorem update_rounded_returns_360:
  "update_rounded
     \<lparr>master_index = 3, target_index = 48,
      master_angle = 584601874706747 / 35184372088832,
      target_angle = 584601874706747 / 2199023255552,
      bottom_angle = radians 90, num_items = 65,
      angle_increment = 3117876665102651 / 562949953421312\<rparr>
   = \<lparr>master_index = 48, target_index = 48,
      master_angle = 360,
      target_angle = 584601874706747 / 2199023255552,
      bottom_angle = radians 90, num_items = 65,
      angle_increment = 3117876665102651 / 562949953421312\<rparr>"
proof -
  let ?w = "\<lparr>master_index = 3, target_index = 48,
      master_angle = 584601874706747 / 35184372088832,
      target_angle = 584601874706747 / 2199023255552,
      bottom_angle = radians 90, num_items = 65,
      angle_increment = 3117876665102651 / 562949953421312 :: real\<rparr>"
  have "update_rounded ?w = ?w\<lparr>master_index := target_index ?w,
          target_angle := 584601874706747 / 2199023255552, master_angle := 360\<rparr>"
  proof (rule update_rounded_wrap[where s = "8769028120601205 / 35184372088832"
        and ?d0.0 = "8769028120601205 / 35184372088832"
        and d = "- (3897345831378315 / 35184372088832)"
        and c = "5404319552844595 / 36028797018963968"
        and p = "- (2338407498826989 / 140737488355328)"
        and q = "- (1 / 140737488355328)"])
    show "float_mod_rounded (target_angle ?w) 360 = 584601874706747 / 2199023255552"
      by (simp add: float_mod_rounded_in_range)
    show "rnd (584601874706747 / 2199023255552 - master_angle ?w) = 8769028120601205 / 35184372088832"
      by (simp add: rnd_step_13)
    show "float_mod_rounded (8769028120601205 / 35184372088832) 360 = 8769028120601205 / 35184372088832"
      by (simp add: float_mod_rounded_in_range)
    show "(180::real) < 8769028120601205 / 35184372088832" by simp
    show "rnd (8769028120601205 / 35184372088832 - 360) = - (3897345831378315 / 35184372088832)"
      by (simp add: rnd_step_14)
    show "1 < \<bar>- (3897345831378315 / 35184372088832 :: real)\<bar>" by simp
    show "rnd 0.15 = 5404319552844595 / 36028797018963968"
      by (simp add: rnd_step_4)
    show "rnd (- (3897345831378315 / 35184372088832) * (5404319552844595 / 36028797018963968))
          = - (2338407498826989 / 140737488355328)"
      by (simp add: rnd_step_15)
    show "rnd (master_angle ?w + - (2338407498826989 / 140737488355328)) = - (1 / 140737488355328)"
      by (simp add: rnd_step_16)
    show "float_mod_rounded (- (1 / 140737488355328)) 360 = 360"
      by (simp add: float_mod_rounded_small_negative rnd_step_17)
  qed
  then show ?thesis by simp
qed

text \<open>
  Claim C6 fails on the code. From the constructed wheel with 42 items, a frame, twenty
  presses of the right key, a frame, five more presses and a frame end with
  \<open>master_angle = 360\<close>, which is not in \<open>[0, 360)\<close>.
\<close>

theorem wheel_ops_rounded_reach_360:
  "wheel_ops_rounded
     (Frame # replicate 20 (Key K_RIGHT) @ Frame # replicate 5 (Key K_RIGHT) @ [Frame])
     (wheel_init_rounded 42)
   = Inr \<lparr>master_index = 25, target_index = 25,
          master_angle = 360,
          target_angle = 3769754152374857 / 17592186044416,
          bottom_angle = radians 90, num_items = 42,
          angle_increment = 4825285315039817 / 562949953421312\<rparr>"
proof -
  let ?inc = "4825285315039817 / 562949953421312 :: real"
  let ?t1 = "6031606643799771 / 35184372088832 :: real"
  let ?m1 = "7237927972559725 / 281474976710656 :: real"
  let ?t2 = "3769754152374857 / 17592186044416 :: real"
  let ?w0 = "\<lparr>master_index = 0, target_index = 0, master_angle = 0, target_angle = 0,
      bottom_angle = radians 90, num_items = 42, angle_increment = ?inc\<rparr>"
  let ?w1 = "\<lparr>master_index = 0, target_index = 20, master_angle = 0, target_angle = ?t1,
      bottom_angle = radians 90, num_items = 42, angle_increment = ?inc\<rparr>"
  let ?w2 = "\<lparr>master_index = 20, target_index = 20, master_angle = ?m1, target_angle = ?t1,
      bottom_angle = radians 90, num_items = 42, angle_increment = ?inc\<rparr>"
  let ?w3 = "\<lparr>master_index = 20, target_index = 25, master_angle = ?m1, target_angle = ?t2,
      bottom_angle = radians 90, num_items = 42, angle_increment = ?inc\<rparr>"
  let ?w4 = "\<lparr>master_index = 25, target_index = 25, master_angle = 360, target_angle = ?t2,
      bottom_angle = radians 90, num_items = 42, angle_increment = ?inc\<rparr>"
  have i: "wheel_init_rounded 42 = ?w0"
    by (simp add: wheel_init_rounded_def rnd_step_1)
  have f0: "update_rounded ?w0 = ?w0"
    by (simp add: update_rounded_def float_mod_rounded_in_range rnd_zero Let_def)
  have k1: "wheel_ops_rounded (replicate 20 (Key K_RIGHT) @ xs) ?w0 = wheel_ops_rounded xs ?w1" for xs
  proof -
    have "wheel_ops_rounded (replicate (Suc 19) (Key K_RIGHT) @ xs) ?w0
          = wheel_ops_rounded xs
             (?w0\<lparr>target_index := target_index ?w0 + int (Suc 19),
                target_angle := rnd (angle_increment ?w0 * real_of_int (target_index ?w0 + int (Suc 19)))\<rparr>)"
      by (rule key_rights_rounded) simp_all
    then show ?thesis by (simp add: rnd_step_2)
  qed
  have f1: "update_rounded ?w1 = ?w2"
  proof -
    have "update_rounded ?w1 = ?w1\<lparr>master_index := target_index ?w1,
          target_angle := ?t1, master_angle := ?m1\<rparr>"
    proof (rule update_rounded_direct[where s = ?t1 and d = ?t1
          and c = "5404319552844595 / 36028797018963968" and p = ?m1 and q = ?m1])
      show "float_mod_rounded (target_angle ?w1) 360 = ?t1"
        by (simp add: float_mod_rounded_in_range)
      show "rnd (?t1 - master_angle ?w1) = ?t1" by (simp add: rnd_step_3)
      show "float_mod_rounded ?t1 360 = ?t1" by (simp add: float_mod_rounded_in_range)
      show "\<not> 180 < ?t1" by simp
      show "1 < \<bar>?t1\<bar>" by simp
      show "rnd 0.15 = 5404319552844595 / 36028797018963968" by (simp add: rnd_step_4)
      show "rnd (?t1 * (5404319552844595 / 36028797018963968)) = ?m1" by (simp add: rnd_step_5)
      show "rnd (master_angle ?w1 + ?m1) = ?m1" by (simp add: rnd_step_6)
      show "float_mod_rounded ?m1 360 = ?m1" by (simp add: float_mod_rounded_in_range)
    qed
    then show ?thesis by simp
  qed
  have k2: "wheel_ops_rounded (replicate 5 (Key K_RIGHT) @ xs) ?w2 = wheel_ops_rounded xs ?w3" for xs
  proof -
    have "wheel_ops_rounded (replicate (Suc 4) (Key K_RIGHT) @ xs) ?w2
          = wheel_ops_rounded xs
             (?w2\<lparr>target_index := target_index ?w2 + int (Suc 4),
                target_angle := rnd (angle_increment ?w2 * real_of_int (target_index ?w2 + int (Suc 4)))\<rparr>)"
      by (rule key_rights_rounded) simp_all
    then show ?thesis by (simp add: rnd_step_7)
  qed
  have f2: "update_rounded ?w3 = ?w4"
  proof -
    have "update_rounded ?w3 = ?w3\<lparr>master_index := target_index ?w3,
          target_angle := ?t2, master_angle := 360\<rparr>"
    proof (rule update_rounded_wrap[where s = "1658691827044937 / 8796093022208"
          and ?d0.0 = "1658691827044937 / 8796093022208"
          and d = "- (1507901660949943 / 8796093022208)"
          and c = "5404319552844595 / 36028797018963968"
          and p = "- (3618963986279863 / 140737488355328)"
          and q = "- (1 / 281474976710656)"])
      show "float_mod_rounded (target_angle ?w3) 360 = ?t2"
        by (simp add: float_mod_rounded_in_range)
      show "rnd (?t2 - master_angle ?w3) = 1658691827044937 / 8796093022208"
        by (simp add: rnd_step_8)
      show "float_mod_rounded (1658691827044937 / 8796093022208) 360 = 1658691827044937 / 8796093022208"
        by (simp add: float_mod_rounded_in_range)
      show "(180::real) < 1658691827044937 / 8796093022208" by simp
      show "rnd (1658691827044937 / 8796093022208 - 360) = - (1507901660949943 / 8796093022208)"
        by (simp add: rnd_step_9)
      show "1 < \<bar>- (1507901660949943 / 8796093022208 :: real)\<bar>" by simp
      show "rnd 0.15 = 5404319552844595 / 36028797018963968" by (simp add: rnd_step_4)
      show "rnd (- (1507901660949943 / 8796093022208) * (5404319552844595 / 36028797018963968))
            = - (3618963986279863 / 140737488355328)"
        by (simp add: rnd_step_10)
      show "rnd (master_angle ?w3 + - (3618963986279863 / 140737488355328)) = - (1 / 281474976710656)"
        by (simp add: rnd_step_11)
      show "float_mod_rounded (- (1 / 281474976710656)) 360 = 360"
        by (simp add: float_mod_rounded_small_negative rnd_step_12)
    qed
    then show ?thesis by simp
  qed
  have "wheel_ops_rounded
          (Frame # replicate 20 (Key K_RIGHT) @ Frame # replicate 5 (Key K_RIGHT) @ [Frame]) ?w0
        = wheel_ops_rounded (replicate 20 (Key K_RIGHT) @ Frame # replicate 5 (Key K_RIGHT) @ [Frame]) ?w0"
    by (simp only: wheel_ops_rounded.simps apply_op_rounded.simps f0 sum.case)
  also have "\<dots> = wheel_ops_rounded (Frame # replicate 5 (Key K_RIGHT) @ [Frame]) ?w1"
    by (rule k1)
  also have "\<dots> = wheel_ops_rounded (replicate 5 (Key K_RIGHT) @ [Frame]) ?w2"
    by (simp only: wheel_ops_rounded.simps apply_op_rounded.simps f1 sum.case)
  also have "\<dots> = wheel_ops_rounded [Frame] ?w3"
    by (rule k2)
  also have "\<dots> = Inr ?w4"
    by (simp only: wheel_ops_rounded.simps apply_op_rounded.simps f2 sum.case)
  finally show ?thesis unfolding i .
qed

section \<open>An empty games directory\<close>

text \<open>
  Claim C5. With no items the constructor guards its division (\<open>angle_increment\<close> is 0) and
  creates no wheel item, but the first menu frame and either arrow key reach an unguarded
  \<open>%\<close> by zero and raise Python's \<open>ZeroDivisionError\<close>.
\<close>

theorem zero_items_unguarded:
  "angle_increment (wheel_init 0) = 0
   \<and> wheel_items 0 = []
   \<and> draw_menu [] (wheel_init 0) = Inl ZeroDivisionError
   \<and> key_down K_LEFT (wheel_init 0) = Inl ZeroDivisionError
   \<and> key_down K_RIGHT (wheel_init 0) = Inl ZeroDivisionError"
  by (simp add: wheel_init_def wheel_items_def draw_menu_def selected_index_def int_mod_def
      update_def Let_def)

section \<open>The bottom item\<close>

text \<open>
  Claim C7. With the bottom angle at 90 degrees, as the constructor sets it, the distance
  \<open>item_diff\<close> that \<open>get_bottom_item\<close> computes for an item is between 0 and \<open>pi\<close>, for every
  item angle and every \<open>master_angle\<close>.
\<close>

theorem item_diff_at_most_pi:
  assumes "bottom_angle w = radians 90"
  shows "0 \<le> item_diff w it \<and> item_diff w it \<le> pi"
proof -
  let ?a = "float_mod (angle it + radians (master_angle w)) (2 * pi)"
  have p: "(0::real) < 2 * pi" by simp
  have a: "0 \<le> ?a" "?a < 2 * pi" using float_mod_range[OF p] by blast+
  have b: "bottom_angle w = pi / 2" using assms by (simp add: radians_def)
  have d: "\<bar>?a - bottom_angle w\<bar> < 2 * pi" using a b pi_gt_zero by linarith
  show ?thesis
  proof (cases "\<bar>?a - bottom_angle w\<bar> > pi")
    case True
    then have "item_diff w it = 2 * pi - \<bar>?a - bottom_angle w\<bar>"
      by (simp add: item_diff_def Let_def)
    then show ?thesis using True d by linarith
  next
    case False
    then have "item_diff w it = \<bar>?a - bottom_angle w\<bar>"
      by (simp add: item_diff_def Let_def)
    then show ?thesis using False by linarith
  qed
qed

theorem item_diff_at_most_pi_witness:
  "bottom_angle (wheel_init 4) = radians 90
   \<and> 0 \<le> item_diff (wheel_init 4) \<lparr>index = 0, angle = radians 90\<rparr>
   \<and> item_diff (wheel_init 4) \<lparr>index = 0, angle = radians 90\<rparr> \<le> pi"
  using item_diff_at_most_pi[of "wheel_init 4" "\<lparr>index = 0, angle = radians 90\<rparr>"]
  by (simp add: wheel_init_def)

lemma bottom_loop_first_min:
  assumes "i < length pre"
    and "\<forall>j<length pre. item_diff w (pre ! i) \<le> item_diff w (pre ! j)"
    and "\<forall>j<i. item_diff w (pre ! i) < item_diff w (pre ! j)"
  shows "\<exists>k<length (pre @ its).
           bottom_loop w its (Some (pre ! i)) (Fin (item_diff w (pre ! i))) = Some ((pre @ its) ! k)
         \<and> (\<forall>j<length (pre @ its). item_diff w ((pre @ its) ! k) \<le> item_diff w ((pre @ its) ! j))
         \<and> (\<forall>j<k. item_diff w ((pre @ its) ! k) < item_diff w ((pre @ its) ! j))"
  using assms
proof (induction its arbitrary: pre i)
  case Nil
  then show ?case by auto
next
  case (Cons it its)
  let ?pre = "pre @ [it]"
  show ?case
  proof (cases "item_diff w it < item_diff w (pre ! i)")
    case True
    let ?i = "length pre"
    have 1: "?i < length ?pre" by simp
    have 2: "\<forall>j<length ?pre. item_diff w (?pre ! ?i) \<le> item_diff w (?pre ! j)"
    proof (intro allI impI)
      fix j assume "j < length ?pre"
      then consider "j < length pre" | "j = length pre" by fastforce
      then show "item_diff w (?pre ! ?i) \<le> item_diff w (?pre ! j)"
      proof cases
        case 1
        then have "item_diff w (pre ! i) \<le> item_diff w (pre ! j)" using Cons.prems(2) by blast
        then show ?thesis using True 1 by (simp add: nth_append)
      next
        case 2
        then show ?thesis by simp
      qed
    qed
    have 3: "\<forall>j<?i. item_diff w (?pre ! ?i) < item_diff w (?pre ! j)"
    proof (intro allI impI)
      fix j assume j: "j < ?i"
      then have "item_diff w (pre ! i) \<le> item_diff w (pre ! j)" using Cons.prems(2) by blast
      then show "item_diff w (?pre ! ?i) < item_diff w (?pre ! j)"
        using True j by (simp add: nth_append)
    qed
    from Cons.IH[OF 1 2 3] True show ?thesis by simp
  next
    case False
    have 1: "i < length ?pre" using Cons.prems(1) by simp
    have 2: "\<forall>j<length ?pre. item_diff w (?pre ! i) \<le> item_diff w (?pre ! j)"
    proof (intro allI impI)
      fix j assume "j < length ?pre"
      then consider "j < length pre" | "j = length pre" by fastforce
      then show "item_diff w (?pre ! i) \<le> item_diff w (?pre ! j)"
      proof cases
        case 1
        then show ?thesis using Cons.prems(1,2) by (simp add: nth_append)
      next
        case 2
        then show ?thesis using False Cons.prems(1) by (simp add: nth_append)
      qed
    qed
    have 3: "\<forall>j<i. item_diff w (?pre ! i) < item_diff w (?pre ! j)"
      using Cons.prems(1,3) by (simp add: nth_append)
    from Cons.IH[OF 1 2 3] False Cons.prems(1) show ?thesis by (simp add: nth_append)
  qed
qed

lemma get_bottom_item_first_min:
  assumes "items \<noteq> []"
  shows "\<exists>k<length items. get_bottom_item w items = Some (items ! k)
         \<and> (\<forall>j<length items. item_diff w (items ! k) \<le> item_diff w (items ! j))
         \<and> (\<forall>j<k. item_diff w (items ! k) < item_diff w (items ! j))"
proof -
  obtain it its where items: "items = it # its" using assms by (cases items) auto
  have "get_bottom_item w items = bottom_loop w its (Some ([it] ! 0)) (Fin (item_diff w ([it] ! 0)))"
    by (simp add: get_bottom_item_def items)
  moreover have "\<exists>k<length ([it] @ its).
           bottom_loop w its (Some ([it] ! 0)) (Fin (item_diff w ([it] ! 0))) = Some (([it] @ its) ! k)
         \<and> (\<forall>j<length ([it] @ its). item_diff w (([it] @ its) ! k) \<le> item_diff w (([it] @ its) ! j))
         \<and> (\<forall>j<k. item_diff w (([it] @ its) ! k) < item_diff w (([it] @ its) ! j))"
    by (rule bottom_loop_first_min) simp_all
  ultimately show ?thesis by (simp add: items)
qed

text \<open>
  Claim C10. \<open>get_bottom_item\<close> returns \<open>None\<close> for no items. For a non-empty list it
  returns an item of the list whose distance is the least one, and the first such item in
  iteration order: every earlier item has a strictly larger distance.
\<close>

theorem get_bottom_item_total:
  "get_bottom_item w [] = None
   \<and> (items \<noteq> [] \<longrightarrow>
        (\<exists>k<length items. get_bottom_item w items = Some (items ! k)
           \<and> items ! k \<in> set items
           \<and> (\<forall>j<length items. item_diff w (items ! k) \<le> item_diff w (items ! j))
           \<and> (\<forall>j<k. item_diff w (items ! k) < item_diff w (items ! j))))"
proof -
  have "get_bottom_item w [] = None" by (simp add: get_bottom_item_def)
  moreover have "items \<noteq> [] \<longrightarrow>
        (\<exists>k<length items. get_bottom_item w items = Some (items ! k)
           \<and> items ! k \<in> set items
           \<and> (\<forall>j<length items. item_diff w (items ! k) \<le> item_diff w (items ! j))
           \<and> (\<forall>j<k. item_diff w (items ! k) < item_diff w (items ! j)))"
    using get_bottom_item_first_min[of items w] nth_mem by blast
  ultimately show ?thesis by blast
qed

theorem get_bottom_item_total_witness:
  "[\<lparr>index = 0, angle = 0\<rparr>, \<lparr>index = 1, angle = 0\<rparr>] \<noteq> []
   \<and> get_bottom_item (wheel_init 2) [\<lparr>index = 0, angle = 0\<rparr>, \<lparr>index = 1, angle = 0\<rparr>]
       = Some \<lparr>index = 0, angle = 0\<rparr>"
proof -
  let ?items = "[\<lparr>index = 0, angle = 0\<rparr>, \<lparr>index = 1, angle = 0\<rparr>]"
  have ne: "?items \<noteq> []" by simp
  from get_bottom_item_total[of "wheel_init 2" ?items] ne obtain k where
    k: "k < length ?items" "get_bottom_item (wheel_init 2) ?items = Some (?items ! k)"
       "\<forall>j<k. item_diff (wheel_init 2) (?items ! k) < item_diff (wheel_init 2) (?items ! j)"
    by blast
  have "k = 0"
  proof (rule ccontr)
    assume "k \<noteq> 0"
    then have k1: "k = 1" using k(1) by simp
    then have "item_diff (wheel_init 2) (?items ! 1) < item_diff (wheel_init 2) (?items ! 0)"
      using k(3) by blast
    then show False by (simp add: item_diff_def)
  qed
  then show ?thesis using k(2) by simp
qed

section \<open>The power button\<close>

lemma presses_append: "presses (ts @ us) m = presses us (presses ts m)"
  by (induction ts arbitrary: m) simp_all

lemma presses_debounce: "debounce_time (presses ts m) = debounce_time m"
  by (induction ts arbitrary: m) (simp_all add: handle_button_press_def)

text \<open>
  Claim C8. After any presses \<open>ts\<close>, a further press at time \<open>t\<close> appends one quit event
  exactly when \<open>t\<close> is at least \<open>debounce_time\<close> after \<open>last_time\<close>, and then \<open>last_time\<close>
  becomes \<open>t\<close>; otherwise the queue and \<open>last_time\<close> stay as they are. So \<open>last_time\<close> is the
  time of the latest accepted press (0 before the first). An accepted press followed by a
  press less than \<open>debounce_time\<close> later appends exactly one quit event.
\<close>

theorem power_button_debounced:
  "event_queue (presses (ts @ [t]) m) =
     event_queue (presses ts m) @
       (if t - last_time (presses ts m) \<ge> debounce_time m then [QUIT] else [])
   \<and> last_time (presses (ts @ [t]) m) =
       (if t - last_time (presses ts m) \<ge> debounce_time m then t else last_time (presses ts m))
   \<and> (t1 - last_time m \<ge> debounce_time m \<and> t2 - t1 < debounce_time m
        \<longrightarrow> event_queue (presses [t1, t2] m) = event_queue m @ [QUIT])"
  by (simp add: presses_append presses_debounce handle_button_press_def)

theorem power_button_debounced_witness:
  "event_queue (presses ([1000] @ [1000.1]) (power_init 0.2)) = [QUIT]
   \<and> last_time (presses ([1000] @ [1000.1]) (power_init 0.2)) = 1000
   \<and> 1000 - last_time (power_init 0.2) \<ge> debounce_time (power_init 0.2)
   \<and> 1000.1 - 1000 < debounce_time (power_init 0.2)
   \<and> event_queue (presses [1000, 1000.1] (power_init 0.2)) = event_queue (power_init 0.2) @ [QUIT]"
  using power_button_debounced[of "[1000]" "1000.1" "power_init 0.2" 1000 "1000.1"]
  by (simp add: power_init_def handle_button_press_def)


section \<open>The grow window of the selected item\<close>

lemma radians_add: "radians (a + b) = radians a + radians b"
  by (simp add: radians_def add_divide_distrib distrib_right)

lemma item_angle_degrees:
  assumes "angle it = radians a" "a + master_angle w = e + 360 * of_int k" "0 \<le> e" "e < 360"
  shows "float_mod (angle it + radians (master_angle w)) (2 * pi) = radians e"
proof -
  have "angle it + radians (master_angle w) = radians (e + 360 * of_int k)"
    using assms(1,2) by (simp add: radians_add[symmetric])
  also have "\<dots> = radians e + 2 * pi * of_int k"
    by (simp add: radians_def add_divide_distrib distrib_right)
  finally have x: "angle it + radians (master_angle w) = radians e + 2 * pi * of_int k" .
  have "0 \<le> radians e" using assms(3) by (simp add: radians_def)
  moreover have "radians e < 2 * pi"
  proof -
    have "e * pi < 360 * pi" using assms(4) by (intro mult_strict_right_mono) simp_all
    then show ?thesis by (simp add: radians_def)
  qed
  ultimately show ?thesis using x by (intro float_mod_unique[where k = k]) simp_all
qed

lemma item_diff_degrees:
  assumes "bottom_angle w = radians 90" "angle it = radians a"
    "a + master_angle w = e + 360 * of_int k" "0 \<le> e" "e < 360"
  shows "item_diff w it = radians (if \<bar>e - 90\<bar> > 180 then 360 - \<bar>e - 90\<bar> else \<bar>e - 90\<bar>)"
proof -
  have a: "float_mod (angle it + radians (master_angle w)) (2 * pi) = radians e"
    using assms(2-5) by (rule item_angle_degrees)
  have "radians e - radians 90 = (e - 90) * (pi / 180)"
    by (simp add: radians_def field_simps)
  then have "\<bar>radians e - radians 90\<bar> = \<bar>e - 90\<bar> * \<bar>pi / 180\<bar>"
    by (simp only: abs_mult)
  then have d: "\<bar>radians e - radians 90\<bar> = radians \<bar>e - 90\<bar>"
    by (simp add: radians_def)
  have p: "(radians \<bar>e - 90\<bar> > pi) = (\<bar>e - 90\<bar> > 180)"
    by (simp add: radians_def pos_less_divide_eq)
  have r: "2 * pi - radians \<bar>e - 90\<bar> = radians (360 - \<bar>e - 90\<bar>)"
    by (simp add: radians_def diff_divide_distrib left_diff_distrib)
  show ?thesis
    unfolding item_diff_def Let_def a assms(1) d p r by simp
qed

lemma radians_less_iff: "radians a < radians b \<longleftrightarrow> a < b"
  by (simp add: radians_def divide_less_cancel)

lemma wheel_items_4:
  "wheel_items 4 = [\<lparr>index = 0, angle = radians 90\<rparr>, \<lparr>index = 1, angle = radians 180\<rparr>,
                    \<lparr>index = 2, angle = radians 270\<rparr>, \<lparr>index = 3, angle = radians 360\<rparr>]"
  by (simp add: wheel_items_def wheel_init_def upt_rec)

lemma item_diffs_355:
  assumes "bottom_angle w = radians 90" "master_angle w = 355"
  shows "item_diff w \<lparr>index = 0, angle = radians 90\<rparr> = radians 5"
    and "item_diff w \<lparr>index = 1, angle = radians 180\<rparr> = radians 85"
    and "item_diff w \<lparr>index = 2, angle = radians 270\<rparr> = radians 175"
    and "item_diff w \<lparr>index = 3, angle = radians 360\<rparr> = radians 95"
  using item_diff_degrees[OF assms(1), of "\<lparr>index = 0, angle = radians 90\<rparr>" 90 85 1]
    item_diff_degrees[OF assms(1), of "\<lparr>index = 1, angle = radians 180\<rparr>" 180 175 1]
    item_diff_degrees[OF assms(1), of "\<lparr>index = 2, angle = radians 270\<rparr>" 270 265 1]
    item_diff_degrees[OF assms(1), of "\<lparr>index = 3, angle = radians 360\<rparr>" 360 355 1]
    assms(2)
  by simp_all

lemma item_diffs_40:
  assumes "bottom_angle w = radians 90" "master_angle w = 40"
  shows "item_diff w \<lparr>index = 0, angle = radians 90\<rparr> = radians 40"
    and "item_diff w \<lparr>index = 1, angle = radians 180\<rparr> = radians 130"
    and "item_diff w \<lparr>index = 2, angle = radians 270\<rparr> = radians 140"
    and "item_diff w \<lparr>index = 3, angle = radians 360\<rparr> = radians 50"
  using item_diff_degrees[OF assms(1), of "\<lparr>index = 0, angle = radians 90\<rparr>" 90 130 0]
    item_diff_degrees[OF assms(1), of "\<lparr>index = 1, angle = radians 180\<rparr>" 180 220 0]
    item_diff_degrees[OF assms(1), of "\<lparr>index = 2, angle = radians 270\<rparr>" 270 310 0]
    item_diff_degrees[OF assms(1), of "\<lparr>index = 3, angle = radians 360\<rparr>" 360 40 1]
    assms(2)
  by simp_all

lemma bottom_item_355:
  "get_bottom_item ((wheel_init 4)\<lparr>master_angle := 355\<rparr>) (wheel_items 4)
     = Some \<lparr>index = 0, angle = radians 90\<rparr>"
proof -
  let ?w = "(wheel_init 4)\<lparr>master_angle := 355\<rparr>"
  have b: "bottom_angle ?w = radians 90" and m: "master_angle ?w = 355"
    by (simp_all add: wheel_init_def)
  show ?thesis
    by (simp add: get_bottom_item_def wheel_items_4 item_diffs_355[OF b m] Let_def radians_less_iff)
qed

lemma bottom_item_40:
  "get_bottom_item ((wheel_init 4)\<lparr>master_angle := 40\<rparr>) (wheel_items 4)
     = Some \<lparr>index = 0, angle = radians 90\<rparr>"
proof -
  let ?w = "(wheel_init 4)\<lparr>master_angle := 40\<rparr>"
  have b: "bottom_angle ?w = radians 90" and m: "master_angle ?w = 40"
    by (simp_all add: wheel_init_def)
  show ?thesis
    by (simp add: get_bottom_item_def wheel_items_4 item_diffs_40[OF b m] Let_def radians_less_iff)
qed

text \<open>
  Claim C9 as stated fails on the code. With four items, target angle 0 and
  \<open>master_angle\<close> 355, item 0 is the bottom item and is 5 degrees from its target, but
  \<open>draw\<close> does not grow it: the test is on \<open>\<bar>master_angle - target_angle\<bar>\<close>, which is 355. With
  \<open>master_angle\<close> 40 the bottom item is 40 degrees from its target and \<open>draw\<close> does not shrink
  it either: it calls neither zoom method.
\<close>

theorem grow_window_counterexample:
  "get_bottom_item ((wheel_init 4)\<lparr>master_angle := 355\<rparr>) (wheel_items 4)
     = Some \<lparr>index = 0, angle = radians 90\<rparr>
   \<and> \<bar>angle_diff (target_angle ((wheel_init 4)\<lparr>master_angle := 355\<rparr>))
                   (master_angle ((wheel_init 4)\<lparr>master_angle := 355\<rparr>))\<bar> = 5
   \<and> draw ((wheel_init 4)\<lparr>master_angle := 355\<rparr>) (wheel_items 4)
        \<lparr>index = 0, angle = radians 90\<rparr> = NoZoom
   \<and> get_bottom_item ((wheel_init 4)\<lparr>master_angle := 40\<rparr>) (wheel_items 4)
     = Some \<lparr>index = 0, angle = radians 90\<rparr>
   \<and> \<bar>angle_diff (target_angle ((wheel_init 4)\<lparr>master_angle := 40\<rparr>))
                   (master_angle ((wheel_init 4)\<lparr>master_angle := 40\<rparr>))\<bar> = 40
   \<and> draw ((wheel_init 4)\<lparr>master_angle := 40\<rparr>) (wheel_items 4)
        \<lparr>index = 0, angle = radians 90\<rparr> = NoZoom"
proof -
  have "\<bar>angle_diff (target_angle ((wheel_init 4)\<lparr>master_angle := 355\<rparr>))
                   (master_angle ((wheel_init 4)\<lparr>master_angle := 355\<rparr>))\<bar> = 5"
    by (simp add: wheel_init_def angle_diff_def float_mod_def)
  moreover have "\<bar>angle_diff (target_angle ((wheel_init 4)\<lparr>master_angle := 40\<rparr>))
                   (master_angle ((wheel_init 4)\<lparr>master_angle := 40\<rparr>))\<bar> = 40"
    by (simp add: wheel_init_def angle_diff_def float_mod_def)
  moreover have "draw ((wheel_init 4)\<lparr>master_angle := 355\<rparr>) (wheel_items 4)
        \<lparr>index = 0, angle = radians 90\<rparr> = NoZoom"
    by (simp add: draw_def bottom_item_355) (simp add: wheel_init_def)
  moreover have "draw ((wheel_init 4)\<lparr>master_angle := 40\<rparr>) (wheel_items 4)
        \<lparr>index = 0, angle = radians 90\<rparr> = NoZoom"
    by (simp add: draw_def bottom_item_40) (simp add: wheel_init_def)
  ultimately show ?thesis using bottom_item_355 bottom_item_40 by simp
qed

lemma angle_diff_plain:
  assumes "\<bar>c - t\<bar> \<le> 180"
  shows "\<bar>angle_diff t c\<bar> = \<bar>c - t\<bar>"
proof (cases "t - c = - 180")
  case True
  have "angle_diff t c = 180"
    using True by (intro angle_diff_unique[where k = "- 1"]) simp_all
  then show ?thesis using True by simp
next
  case False
  have "angle_diff t c = t - c"
    using assms False by (intro angle_diff_unique[where k = 0]) simp_all
  then show ?thesis by simp
qed

lemma angle_diff_wrapped:
  assumes "180 < \<bar>c - t\<bar>" "\<bar>c - t\<bar> < 360"
  shows "\<bar>angle_diff t c\<bar> = 360 - \<bar>c - t\<bar>"
proof (cases "c < t")
  case True
  have "angle_diff t c = t - c - 360"
    using assms True by (intro angle_diff_unique[where k = 1]) simp_all
  then show ?thesis using assms True by simp
next
  case False
  have "angle_diff t c = t - c + 360"
    using assms False by (intro angle_diff_unique[where k = "- 1"]) simp_all
  then show ?thesis using assms False by simp
qed

lemma grow_window_agrees:
  assumes "\<bar>c - t\<bar> \<le> 354"
  shows "(\<bar>angle_diff t c\<bar> < 6) = (\<bar>c - t\<bar> < 6)"
proof (cases "\<bar>c - t\<bar> \<le> 180")
  case True
  then show ?thesis by (simp add: angle_diff_plain)
next
  case False
  then have "\<bar>angle_diff t c\<bar> = 360 - \<bar>c - t\<bar>"
    using assms by (intro angle_diff_wrapped) simp_all
  then show ?thesis using assms False by simp
qed

lemma item_diffs_3:
  assumes "bottom_angle w = radians 90" "master_angle w = 3"
  shows "item_diff w \<lparr>index = 0, angle = radians 90\<rparr> = radians 3"
    and "item_diff w \<lparr>index = 1, angle = radians 180\<rparr> = radians 93"
    and "item_diff w \<lparr>index = 2, angle = radians 270\<rparr> = radians 177"
    and "item_diff w \<lparr>index = 3, angle = radians 360\<rparr> = radians 87"
  using item_diff_degrees[OF assms(1), of "\<lparr>index = 0, angle = radians 90\<rparr>" 90 93 0]
    item_diff_degrees[OF assms(1), of "\<lparr>index = 1, angle = radians 180\<rparr>" 180 183 0]
    item_diff_degrees[OF assms(1), of "\<lparr>index = 2, angle = radians 270\<rparr>" 270 273 0]
    item_diff_degrees[OF assms(1), of "\<lparr>index = 3, angle = radians 360\<rparr>" 360 3 1]
    assms(2)
  by simp_all

lemma item_diffs_300:
  assumes "bottom_angle w = radians 90" "master_angle w = 300"
  shows "item_diff w \<lparr>index = 0, angle = radians 90\<rparr> = radians 60"
    and "item_diff w \<lparr>index = 1, angle = radians 180\<rparr> = radians 30"
    and "item_diff w \<lparr>index = 2, angle = radians 270\<rparr> = radians 120"
    and "item_diff w \<lparr>index = 3, angle = radians 360\<rparr> = radians 150"
  using item_diff_degrees[OF assms(1), of "\<lparr>index = 0, angle = radians 90\<rparr>" 90 30 1]
    item_diff_degrees[OF assms(1), of "\<lparr>index = 1, angle = radians 180\<rparr>" 180 120 1]
    item_diff_degrees[OF assms(1), of "\<lparr>index = 2, angle = radians 270\<rparr>" 270 210 1]
    item_diff_degrees[OF assms(1), of "\<lparr>index = 3, angle = radians 360\<rparr>" 360 300 1]
    assms(2)
  by simp_all

lemma bottom_item_3:
  "get_bottom_item ((wheel_init 4)\<lparr>master_angle := 3\<rparr>) (wheel_items 4)
     = Some \<lparr>index = 0, angle = radians 90\<rparr>"
proof -
  let ?w = "(wheel_init 4)\<lparr>master_angle := 3\<rparr>"
  have b: "bottom_angle ?w = radians 90" and m: "master_angle ?w = 3"
    by (simp_all add: wheel_init_def)
  show ?thesis
    by (simp add: get_bottom_item_def wheel_items_4 item_diffs_3[OF b m] Let_def radians_less_iff)
qed

lemma bottom_item_300:
  "get_bottom_item ((wheel_init 4)\<lparr>master_angle := 300\<rparr>) (wheel_items 4)
     = Some \<lparr>index = 1, angle = radians 180\<rparr>"
proof -
  let ?w = "(wheel_init 4)\<lparr>master_angle := 300\<rparr>"
  have b: "bottom_angle ?w = radians 90" and m: "master_angle ?w = 300"
    by (simp_all add: wheel_init_def)
  show ?thesis
    by (simp add: get_bottom_item_def wheel_items_4 item_diffs_300[OF b m] Let_def radians_less_iff)
qed

text \<open>
  Claim C9, amended. When \<open>master_angle\<close> and \<open>target_angle\<close> differ by at most 354, which for
  angles in \<open>[0, 360)\<close> leaves out only the differences in \<open>(354, 360)\<close>, \<open>draw\<close> grows the bottom
  item exactly when its angular separation from the target is below 6 degrees and otherwise
  leaves its size as it is; an item that is not the bottom item is shrunk.
\<close>

theorem grow_window_up_to_354:
  assumes "get_bottom_item w items = Some b"
    and "\<bar>master_angle w - target_angle w\<bar> \<le> 354"
  shows "(index self = index b \<and> \<bar>wheel_diff w\<bar> < 6 \<longrightarrow> draw w items self = ZoomIn)
       \<and> (index self = index b \<and> \<not> \<bar>wheel_diff w\<bar> < 6 \<longrightarrow> draw w items self = NoZoom)
       \<and> (index self \<noteq> index b \<longrightarrow> draw w items self = ZoomOut)"
  using assms(1) grow_window_agrees[OF assms(2)]
  by (simp add: draw_def wheel_diff_def)

theorem grow_window_up_to_354_witness:
  "get_bottom_item ((wheel_init 4)\<lparr>master_angle := 3\<rparr>) (wheel_items 4)
     = Some \<lparr>index = 0, angle = radians 90\<rparr>
   \<and> \<bar>master_angle ((wheel_init 4)\<lparr>master_angle := 3\<rparr>)
        - target_angle ((wheel_init 4)\<lparr>master_angle := 3\<rparr>)\<bar> \<le> 354
   \<and> \<bar>wheel_diff ((wheel_init 4)\<lparr>master_angle := 3\<rparr>)\<bar> < 6
   \<and> draw ((wheel_init 4)\<lparr>master_angle := 3\<rparr>) (wheel_items 4)
        \<lparr>index = 0, angle = radians 90\<rparr> = ZoomIn
   \<and> index \<lparr>index = 1, angle = radians 180\<rparr> \<noteq> index \<lparr>index = 0, angle = radians 90\<rparr>
   \<and> draw ((wheel_init 4)\<lparr>master_angle := 3\<rparr>) (wheel_items 4)
        \<lparr>index = 1, angle = radians 180\<rparr> = ZoomOut
   \<and> get_bottom_item ((wheel_init 4)\<lparr>master_angle := 300\<rparr>) (wheel_items 4)
     = Some \<lparr>index = 1, angle = radians 180\<rparr>
   \<and> \<bar>master_angle ((wheel_init 4)\<lparr>master_angle := 300\<rparr>)
        - target_angle ((wheel_init 4)\<lparr>master_angle := 300\<rparr>)\<bar> \<le> 354
   \<and> \<not> \<bar>wheel_diff ((wheel_init 4)\<lparr>master_angle := 300\<rparr>)\<bar> < 6
   \<and> draw ((wheel_init 4)\<lparr>master_angle := 300\<rparr>) (wheel_items 4)
        \<lparr>index = 1, angle = radians 180\<rparr> = NoZoom"
proof -
  let ?w = "(wheel_init 4)\<lparr>master_angle := 3\<rparr>"
  let ?v = "(wheel_init 4)\<lparr>master_angle := 300\<rparr>"
  have a: "\<bar>master_angle ?w - target_angle ?w\<bar> \<le> 354" by (simp add: wheel_init_def)
  have c: "\<bar>master_angle ?v - target_angle ?v\<bar> \<le> 354" by (simp add: wheel_init_def)
  have d: "\<bar>wheel_diff ?w\<bar> < 6"
    by (simp add: wheel_diff_def wheel_init_def angle_diff_def float_mod_def)
  have e: "\<not> \<bar>wheel_diff ?v\<bar> < 6"
    by (simp add: wheel_diff_def wheel_init_def angle_diff_def float_mod_def)
  show ?thesis
    using grow_window_up_to_354[OF bottom_item_3 a, of "\<lparr>index = 0, angle = radians 90\<rparr>"]
      grow_window_up_to_354[OF bottom_item_3 a, of "\<lparr>index = 1, angle = radians 180\<rparr>"]
      grow_window_up_to_354[OF bottom_item_300 c, of "\<lparr>index = 1, angle = radians 180\<rparr>"]
      bottom_item_3 bottom_item_300 a c d e
    by simp
qed

section \<open>The bottom item of the wheel at rest\<close>

lemma item_diff_nonneg:
  assumes "bottom_angle w = radians 90"
  shows "0 \<le> item_diff w it"
proof -
  let ?a = "float_mod (angle it + radians (master_angle w)) (2 * pi)"
  have "0 \<le> ?a" "?a < 2 * pi" using float_mod_range[of "2 * pi"] by simp_all
  then have "\<bar>?a - bottom_angle w\<bar> < 2 * pi"
    using assms pi_gt_zero by (simp add: radians_def)
  then show ?thesis by (simp add: item_diff_def Let_def)
qed

lemma item_diff_zero_iff:
  assumes "bottom_angle w = radians 90"
  shows "item_diff w it = 0 \<longleftrightarrow> float_mod (angle it + radians (master_angle w)) (2 * pi) = pi / 2"
proof -
  let ?a = "float_mod (angle it + radians (master_angle w)) (2 * pi)"
  have b: "bottom_angle w = pi / 2" using assms by (simp add: radians_def)
  have a: "0 \<le> ?a" "?a < 2 * pi" using float_mod_range[of "2 * pi"] by simp_all
  have d: "item_diff w it
           = (if \<bar>?a - pi / 2\<bar> > pi then 2 * pi - \<bar>?a - pi / 2\<bar> else \<bar>?a - pi / 2\<bar>)"
    unfolding item_diff_def Let_def b by (rule refl)
  show ?thesis
  proof (cases "\<bar>?a - pi / 2\<bar> > pi")
    case True
    have "\<bar>?a - pi / 2\<bar> < 2 * pi" using a pi_gt_zero by linarith
    then have "item_diff w it > 0" using True d by simp
    moreover have "?a \<noteq> pi / 2"
    proof
      assume "?a = pi / 2"
      then have "\<bar>?a - pi / 2\<bar> = 0" by simp
      then show False using True pi_gt_zero by linarith
    qed
    ultimately show ?thesis by simp
  next
    case False
    then have "item_diff w it = \<bar>?a - pi / 2\<bar>" using d by simp
    then show ?thesis by simp
  qed
qed

lemma float_mod_half_pi:
  "float_mod x (2 * pi) = pi / 2 \<longleftrightarrow> (\<exists>k::int. x = pi / 2 + 2 * pi * of_int k)"
proof
  assume h: "float_mod x (2 * pi) = pi / 2"
  obtain k :: int where "float_mod x (2 * pi) = x + 2 * pi * of_int k"
    using float_mod_congr by blast
  then have "x = pi / 2 + 2 * pi * of_int (- k)" using h by simp
  then show "\<exists>k::int. x = pi / 2 + 2 * pi * of_int k" by blast
next
  assume "\<exists>k::int. x = pi / 2 + 2 * pi * of_int k"
  then obtain k :: int where "x = pi / 2 + 2 * pi * of_int k" by blast
  then show "float_mod x (2 * pi) = pi / 2"
    using pi_gt_zero by (intro float_mod_unique[where k = k]) simp_all
qed

lemma wheel_items_length: "length (wheel_items n) = n"
  by (simp add: wheel_items_def)

lemma wheel_items_nth:
  assumes "i < n"
  shows "wheel_items n ! i = \<lparr>index = int i, angle = radians (360 / real n * real i + 90)\<rparr>"
  using assms by (simp add: wheel_items_def wheel_init_def)

lemma rest_angle:
  assumes "0 < n"
  shows "radians (360 / real n * real i + 90) + radians (360 / real n * of_int T)
         = pi / 2 + 2 * pi * ((real i + of_int T) / real n)"
  using assms by (simp add: radians_def field_simps)

lemma item_diff_zero_dvd:
  assumes "i < n" "bottom_angle w = radians 90" "master_angle w = 360 / real n * of_int T"
  shows "item_diff w (wheel_items n ! i) = 0 \<longleftrightarrow> int n dvd (int i + T)"
proof -
  have n: "0 < n" using assms(1) by simp
  let ?x = "pi / 2 + 2 * pi * ((real i + of_int T) / real n)"
  have "item_diff w (wheel_items n ! i) = 0 \<longleftrightarrow> float_mod ?x (2 * pi) = pi / 2"
    using item_diff_zero_iff[OF assms(2), of "wheel_items n ! i"] rest_angle[OF n, of i T]
    by (simp add: wheel_items_nth[OF assms(1)] assms(3))
  also have "\<dots> \<longleftrightarrow> (\<exists>k::int. ?x = pi / 2 + 2 * pi * of_int k)"
    by (rule float_mod_half_pi)
  also have "\<dots> \<longleftrightarrow> (\<exists>k::int. (real i + of_int T) / real n = of_int k)"
  proof -
    have "(?x = pi / 2 + 2 * pi * of_int k) = ((real i + of_int T) / real n = of_int k)"
      for k :: int
    proof -
      have "(?x = pi / 2 + 2 * pi * of_int k)
            = (2 * pi * ((real i + of_int T) / real n) = 2 * pi * of_int k)"
        by (simp only: add_left_cancel)
      also have "\<dots> = ((real i + of_int T) / real n = of_int k)"
        by (simp only: mult_cancel_left) simp
      finally show ?thesis .
    qed
    then show ?thesis by (simp only:)
  qed
  also have "\<dots> \<longleftrightarrow> (\<exists>k::int. int i + T = k * int n)"
  proof -
    have "((real i + of_int T) / real n = of_int k) = (int i + T = k * int n)" for k :: int
    proof -
      have "((real i + of_int T) / real n = of_int k) = (real i + of_int T = of_int k * real n)"
        using n by (simp add: divide_eq_eq)
      also have "\<dots> = (real_of_int (int i + T) = real_of_int (k * int n))"
        by simp
      also have "\<dots> = (int i + T = k * int n)"
        by (simp only: of_int_eq_iff)
      finally show ?thesis .
    qed
    then show ?thesis by simp
  qed
  also have "\<dots> \<longleftrightarrow> int n dvd (int i + T)"
    by (auto simp: dvd_def mult.commute)
  finally show ?thesis .
qed

lemma dvd_rest_index:
  assumes "i < n" "0 \<le> T" "T < int n" "int n dvd (int i + T)"
  shows "int i = (int n - T) mod int n"
proof -
  obtain k where k: "int i + T = int n * k" using assms(4) by (auto simp: dvd_def)
  have "0 \<le> int n * k" "int n * k < int n * 2" using assms(1-3) k by linarith+
  then have "0 \<le> k" "k < 2"
    using assms(1) by (simp_all add: zero_le_mult_iff)
  then consider "k = 0" | "k = 1" by linarith
  then show ?thesis
  proof cases
    case 1
    then have "T = 0" "i = 0" using k assms(2) by simp_all
    then show ?thesis by simp
  next
    case 2
    then have e: "int i = int n - T" using k by simp
    have "(int n - T) mod int n = int n - T"
      using e assms(1) by (intro mod_pos_pos_trivial) linarith+
    then show ?thesis using e by simp
  qed
qed

lemma rest_index_dvd:
  assumes "0 \<le> T" "T < int n"
  shows "nat ((int n - T) mod int n) < n" "int n dvd (int (nat ((int n - T) mod int n)) + T)"
proof -
  have n: "0 < int n" using assms by simp
  show "nat ((int n - T) mod int n) < n" using n by (simp add: nat_less_iff)
  show "int n dvd (int (nat ((int n - T) mod int n)) + T)"
  proof (cases "T = 0")
    case True
    then show ?thesis by simp
  next
    case False
    then have e: "(int n - T) mod int n = int n - T"
      using assms by (intro mod_pos_pos_trivial) linarith+
    show ?thesis unfolding e using assms by simp
  qed
qed

lemma selected_index_rest:
  assumes "0 \<le> T" "T < n"
  shows "selected_index n T = Inr ((n - T) mod n)"
proof -
  have "\<bar>n - 1 - T\<bar> + 1 = n - T" using assms by simp
  then show ?thesis using assms by (simp add: selected_index_def int_mod_def)
qed

lemma bottom_item_at_rest:
  assumes "0 \<le> T" "T < int n" "bottom_angle w = radians 90"
    "master_angle w = 360 / real n * of_int T"
  shows "\<exists>b. get_bottom_item w (wheel_items n) = Some b \<and> index b = (int n - T) mod int n"
proof -
  have ne: "wheel_items n \<noteq> []" using assms(1,2) wheel_items_length[of n] by auto
  from get_bottom_item_first_min[OF ne, of w] obtain k where
    k: "k < n" "get_bottom_item w (wheel_items n) = Some (wheel_items n ! k)"
       "\<forall>j<n. item_diff w (wheel_items n ! k) \<le> item_diff w (wheel_items n ! j)"
    by (auto simp: wheel_items_length)
  let ?i = "nat ((int n - T) mod int n)"
  have i: "?i < n" "int n dvd (int ?i + T)" using rest_index_dvd[OF assms(1,2)] by blast+
  have "item_diff w (wheel_items n ! ?i) = 0"
    using item_diff_zero_dvd[OF i(1) assms(3,4)] i(2) by simp
  then have "item_diff w (wheel_items n ! k) \<le> 0" using k(3) i(1) by metis
  then have "item_diff w (wheel_items n ! k) = 0"
    using item_diff_nonneg[OF assms(3), of "wheel_items n ! k"] by linarith
  then have "int n dvd (int k + T)" using item_diff_zero_dvd[OF k(1) assms(3,4)] by simp
  then have "int k = (int n - T) mod int n" using dvd_rest_index[OF k(1) assms(1,2)] by simp
  then show ?thesis using k(1,2) by (simp add: wheel_items_nth)
qed

lemma update_at_rest:
  assumes "0 \<le> target_angle w" "target_angle w < 360" "master_angle w = target_angle w"
  shows "master_angle (update w) = target_angle w"
  using assms by (simp add: update_master angle_diff_self float_mod_id)

lemma rest_target_range:
  assumes "0 \<le> T" "T < int n"
  shows "0 \<le> 360 / real n * of_int T" "360 / real n * of_int T < 360"
proof -
  have n: "0 < real n" using assms by simp
  show "0 \<le> 360 / real n * of_int T" using assms(1) n by simp
  have "real_of_int T < real n" using assms(2) by linarith
  then have "real_of_int T / real n < 1" using n by simp
  then show "360 / real n * of_int T < 360" by simp
qed

text \<open>
  Claim C3. In a menu frame of a wheel at rest on target index \<open>T\<close>, with as many wheel items
  as games, \<open>draw_menu\<close> raises nothing and the \<open>selected_index\<close> it computes,
  \<open>(\<bar>n - 1 - T\<bar> + 1) mod n\<close>, which is \<open>(n - 1 - T + 1) mod n\<close>, is the index of the item that
  \<open>get_bottom_item\<close> returns.
\<close>

theorem bottom_item_is_selected_index:
  assumes "0 \<le> target_index w" "target_index w < int (length games)"
    and "bottom_angle w = radians 90"
    and "angle_increment w = 360 / real (length games)"
    and "target_angle w = angle_increment w * of_int (target_index w)"
    and "master_angle w = target_angle w"
  shows "\<exists>w' i g b. draw_menu games w = Inr (w', i, g)
           \<and> get_bottom_item w' (wheel_items (length games)) = Some b
           \<and> index b = i
           \<and> i = (\<bar>int (length games) - 1 - target_index w\<bar> + 1) mod int (length games)
           \<and> i = (int (length games) - 1 - target_index w + 1) mod int (length games)"
proof -
  let ?n = "length games" and ?T = "target_index w"
  let ?i = "(int ?n - ?T) mod int ?n"
  have t: "target_angle w = 360 / real ?n * of_int ?T" using assms(4,5) by simp
  have r: "0 \<le> target_angle w" "target_angle w < 360"
    using rest_target_range[OF assms(1,2)] t by simp_all
  have m: "master_angle (update w) = 360 / real ?n * of_int ?T"
    using update_at_rest[OF r assms(6)] t by simp
  have b: "bottom_angle (update w) = radians 90" using assms(3) by (simp add: update_other)
  from bottom_item_at_rest[OF assms(1,2) b m] obtain bi where
    bi: "get_bottom_item (update w) (wheel_items ?n) = Some bi" "index bi = ?i" by blast
  have s: "selected_index (int ?n) (master_index (update w)) = Inr ?i"
    using selected_index_rest[OF assms(1,2)] by (simp add: update_other)
  have n: "0 < int ?n" using assms(1,2) by linarith
  have i: "0 \<le> ?i" "?i < int ?n"
    using n by (rule pos_mod_sign, rule pos_mod_bound)
  then have g: "games_at games ?i = Inr (games ! nat ?i)"
    by (simp add: games_at_def Let_def)
  have d: "draw_menu games w = Inr (update w, ?i, games ! nat ?i)"
    by (simp only: draw_menu_def Let_def s sum.case g)
  have a: "\<bar>int ?n - 1 - ?T\<bar> + 1 = int ?n - ?T" using assms(1,2) by simp
  have c: "int ?n - 1 - ?T + 1 = int ?n - ?T" by simp
  show ?thesis using d bi unfolding a c by blast
qed

theorem bottom_item_is_selected_index_witness:
  "0 \<le> target_index ((wheel_init 4)\<lparr>target_index := 1, target_angle := 90, master_angle := 90\<rparr>)
   \<and> target_index ((wheel_init 4)\<lparr>target_index := 1, target_angle := 90, master_angle := 90\<rparr>)
        < int (length [''a'', ''b'', ''c'', ''d''])
   \<and> bottom_angle ((wheel_init 4)\<lparr>target_index := 1, target_angle := 90, master_angle := 90\<rparr>)
        = radians 90
   \<and> angle_increment ((wheel_init 4)\<lparr>target_index := 1, target_angle := 90, master_angle := 90\<rparr>)
        = 360 / real (length [''a'', ''b'', ''c'', ''d''])
   \<and> target_angle ((wheel_init 4)\<lparr>target_index := 1, target_angle := 90, master_angle := 90\<rparr>)
        = angle_increment ((wheel_init 4)\<lparr>target_index := 1, target_angle := 90, master_angle := 90\<rparr>)
          * of_int (target_index ((wheel_init 4)\<lparr>target_index := 1, target_angle := 90, master_angle := 90\<rparr>))
   \<and> master_angle ((wheel_init 4)\<lparr>target_index := 1, target_angle := 90, master_angle := 90\<rparr>)
        = target_angle ((wheel_init 4)\<lparr>target_index := 1, target_angle := 90, master_angle := 90\<rparr>)
   \<and> (\<exists>w' g b. draw_menu [''a'', ''b'', ''c'', ''d'']
                   ((wheel_init 4)\<lparr>target_index := 1, target_angle := 90, master_angle := 90\<rparr>)
                 = Inr (w', 3, g)
          \<and> get_bottom_item w' (wheel_items 4) = Some b \<and> index b = 3)"
proof -
  let ?w = "(wheel_init 4)\<lparr>target_index := 1, target_angle := 90, master_angle := 90\<rparr>"
  let ?games = "[''a'', ''b'', ''c'', ''d'']"
  have h: "0 \<le> target_index ?w" "target_index ?w < int (length ?games)"
    "bottom_angle ?w = radians 90" "angle_increment ?w = 360 / real (length ?games)"
    "target_angle ?w = angle_increment ?w * of_int (target_index ?w)"
    "master_angle ?w = target_angle ?w"
    by (simp_all add: wheel_init_def)
  have l: "length ?games = 4" by simp
  have t: "target_index ?w = 1" by simp
  from bottom_item_is_selected_index[OF h] obtain w' i g b where
    r: "draw_menu ?games ?w = Inr (w', i, g)"
       "get_bottom_item w' (wheel_items (length ?games)) = Some b" "index b = i"
       "i = (\<bar>int (length ?games) - 1 - target_index ?w\<bar> + 1) mod int (length ?games)"
    by blast
  have "i = 3" using r(4) unfolding l t by simp
  then have "\<exists>w' g b. draw_menu ?games ?w = Inr (w', 3, g)
          \<and> get_bottom_item w' (wheel_items 4) = Some b \<and> index b = 3"
    using r(1,2,3) unfolding l by blast
  then show ?thesis using h by blast
qed

end
